theory Spec2Isabelle
  imports Main "HOL-Library.Word"
begin

section \<open>SimpleVector: a growable array over a raw owned buffer\<close>

text \<open>
  A shallow embedding of \<^verbatim>\<open>simple-vector/simple_vector.h\<close>. The class template
  \<^verbatim>\<open>SimpleVector<Type>\<close> becomes a record over an element type \<open>'a\<close>; every member
  function becomes a function that takes the object and returns the updated object, or an
  \<open>error\<close> where the C++ throws, aborts or leaves the language's defined behaviour.
\<close>

subsection \<open>Machine integers, failures, build modes\<close>

text \<open>\<^verbatim>\<open>size_t\<close> is an unsigned 64-bit integer: \<open>+\<close>, \<open>-\<close> and \<open>*\<close> wrap around.\<close>

type_synonym size_t = "64 word"

text \<open>
  The ways a call can fail to return:
  \<^item> \<open>AssertionFailure\<close>: an \<^verbatim>\<open>assert\<close> aborts the program (only when assertions are
    compiled in);
  \<^item> \<open>OutOfRange\<close>: \<^verbatim>\<open>throw std::out_of_range("Index out of range")\<close>;
  \<^item> \<open>BadAlloc\<close>: the buffer cannot be allocated;
  \<^item> \<open>UndefinedBehaviour\<close>: the call reads or writes outside the buffer, reads a slot
    that holds no value, or hands the standard library an invalid range;
  \<^item> \<open>IllFormed\<close>: the call reaches a statement that is not C++ (it names an identifier
    that is declared nowhere), so that no compiler translates it and it has no behaviour.
\<close>

datatype error = AssertionFailure | OutOfRange | BadAlloc | UndefinedBehaviour | IllFormed

text \<open>\<^verbatim>\<open>assert\<close> checks its condition in a debug build and is empty under \<^verbatim>\<open>NDEBUG\<close>.\<close>

datatype build = Debug | Release

definition assert :: "build \<Rightarrow> bool \<Rightarrow> error + unit" where
  "assert b cond = (if b = Debug \<and> \<not> cond then Inl AssertionFailure else Inr ())"

text \<open>Sequencing of fallible steps: the first failure ends the call.\<close>

definition bind_err :: "error + 'a \<Rightarrow> ('a \<Rightarrow> error + 'b) \<Rightarrow> error + 'b" where
  "bind_err m f = (case m of Inl e \<Rightarrow> Inl e | Inr x \<Rightarrow> f x)"

subsection \<open>The buffer\<close>

text \<open>
  A buffer is a list of slots; a slot is \<open>None\<close> while it is uninitialised memory and
  \<open>Some x\<close> once a value has been constructed or assigned there. A pointer into the
  buffer (\<^verbatim>\<open>Type*\<close>, the class's \<^verbatim>\<open>Iterator\<close>) is the offset from \<^verbatim>\<open>array_.Get()\<close>, so
  \<^verbatim>\<open>begin()\<close> is offset \<open>0\<close> and \<^verbatim>\<open>end()\<close> is offset \<open>size_\<close>.

  An \<^verbatim>\<open>ArrayPtr\<close> owns its buffer alone (it cannot be copied, only moved or swapped), so
  the buffer is held by value inside the vector: two vectors never share slots.
\<close>

type_synonym 'a ArrayPtr = "'a option list"

type_synonym Iterator = nat

text \<open>
  Modelled from the spec: \<^verbatim>\<open>array_ptr.h\<close> is not among the sources. The spec's Buffer
  exposes "allocate N uninitialized slots", and an allocation failure propagates to the
  caller. The constructor \<^verbatim>\<open>ArrayPtr<Type>(n)\<close> therefore yields \<open>n\<close> uninitialised slots.
  No C++ object is larger than \<^verbatim>\<open>PTRDIFF_MAX = 2^63 - 1\<close> bytes, so a request for \<open>2^63\<close>
  slots or more fails; every smaller request succeeds (memory is not otherwise bounded
  in the model).
\<close>

definition ArrayPtr :: "size_t \<Rightarrow> error + 'a ArrayPtr" where
  "ArrayPtr n = (if unat n < 2 ^ 63 then Inr (replicate (unat n) None) else Inl BadAlloc)"

text \<open>\<^verbatim>\<open>new (p) Type(x)\<close>: construct \<open>x\<close> in the slot at offset \<open>p\<close>.\<close>

definition placement_new :: "'a ArrayPtr \<Rightarrow> nat \<Rightarrow> 'a \<Rightarrow> error + 'a ArrayPtr" where
  "placement_new buf p x =
     (if p < length buf then Inr (buf[p := Some x]) else Inl UndefinedBehaviour)"

text \<open>
  \<^verbatim>\<open>pos - begin()\<close>, converted to \<^verbatim>\<open>size_t\<close>. The difference of two pointers is defined
  only when both point into the same array or one past its end.
\<close>

definition ptr_diff :: "'a ArrayPtr \<Rightarrow> Iterator \<Rightarrow> error + size_t" where
  "ptr_diff buf pos =
     (if pos \<le> length buf then Inr (of_nat pos) else Inl UndefinedBehaviour)"

subsection \<open>The standard algorithms the class calls\<close>

text \<open>
  \<^verbatim>\<open>std::move(first, last, d_first)\<close> from one buffer into another: element by element,
  front to back. The range must be valid (\<open>first \<le> last_p\<close>), every source slot must lie in
  the source buffer and every destination slot in the destination buffer. The source
  slot keeps its value, as it does for \<^verbatim>\<open>int\<close> and every trivially copyable \<^verbatim>\<open>Type\<close>; for
  other types the moved-from value is unspecified. The class itself overwrites a slot it
  has moved from before it reads the slot again; only a reference that the caller hands
  to \<^verbatim>\<open>Insert\<close> can refer to such a slot.
\<close>

function std_move ::
  "'a ArrayPtr \<Rightarrow> nat \<Rightarrow> nat \<Rightarrow> 'a ArrayPtr \<Rightarrow> nat \<Rightarrow> error + 'a ArrayPtr" where
  "std_move src first last_p dst d_first =
     (if first = last_p then Inr dst
      else if first < last_p \<and> first < length src \<and> d_first < length dst
      then std_move src (first + 1) last_p (dst[d_first := src ! first]) (d_first + 1)
      else Inl UndefinedBehaviour)"
  by pat_completeness auto
termination
  by (relation "measure (\<lambda>(src, first, last_p, dst, d_first). last_p - first)") auto

declare std_move.simps [simp del]

text \<open>\<^verbatim>\<open>std::copy\<close> between two buffers visits the slots in the same way.\<close>

definition std_copy ::
  "'a ArrayPtr \<Rightarrow> nat \<Rightarrow> nat \<Rightarrow> 'a ArrayPtr \<Rightarrow> nat \<Rightarrow> error + 'a ArrayPtr" where
  "std_copy src first last_p dst d_first = std_move src first last_p dst d_first"

text \<open>
  \<^verbatim>\<open>std::move(first, last, d_first)\<close> with source and destination in the same buffer
  (\<^verbatim>\<open>Erase\<close>): each assignment is visible to the later reads.
\<close>

function std_move_within :: "'a ArrayPtr \<Rightarrow> nat \<Rightarrow> nat \<Rightarrow> nat \<Rightarrow> error + 'a ArrayPtr" where
  "std_move_within buf first last_p d_first =
     (if first = last_p then Inr buf
      else if first < last_p \<and> first < length buf \<and> d_first < length buf
      then std_move_within (buf[d_first := buf ! first]) (first + 1) last_p (d_first + 1)
      else Inl UndefinedBehaviour)"
  by pat_completeness auto
termination
  by (relation "measure (\<lambda>(buf, first, last_p, d_first). last_p - first)") auto

declare std_move_within.simps [simp del]

text \<open>
  \<^verbatim>\<open>std::move_backward(first, last, d_last)\<close> in one buffer (\<^verbatim>\<open>Insert\<close>): back to front,
  \<^verbatim>\<open>*(--d_last) = std::move(*(--last))\<close> until \<open>last\<close> meets \<open>first\<close>.
\<close>

function std_move_backward :: "'a ArrayPtr \<Rightarrow> nat \<Rightarrow> nat \<Rightarrow> nat \<Rightarrow> error + 'a ArrayPtr" where
  "std_move_backward buf first last_p d_last =
     (if first = last_p then Inr buf
      else if first < last_p \<and> last_p \<le> length buf \<and> 0 < d_last \<and> d_last \<le> length buf
      then std_move_backward (buf[d_last - 1 := buf ! (last_p - 1)]) first (last_p - 1) (d_last - 1)
      else Inl UndefinedBehaviour)"
  by pat_completeness auto
termination
  by (relation "measure (\<lambda>(buf, first, last_p, d_last). last_p - first)") auto

declare std_move_backward.simps [simp del]

text \<open>\<^verbatim>\<open>std::fill(first, last, x)\<close>: assign \<open>x\<close> to every slot of the range.\<close>

function std_fill :: "'a ArrayPtr \<Rightarrow> nat \<Rightarrow> nat \<Rightarrow> 'a \<Rightarrow> error + 'a ArrayPtr" where
  "std_fill buf first last_p x =
     (if first = last_p then Inr buf
      else if first < last_p \<and> first < length buf
      then std_fill (buf[first := Some x]) (first + 1) last_p x
      else Inl UndefinedBehaviour)"
  by pat_completeness auto
termination
  by (relation "measure (\<lambda>(buf, first, last_p, x). last_p - first)") auto

declare std_fill.simps [simp del]

subsection \<open>The class\<close>

text \<open>
  The three data members. Isabelle names cannot end in an underscore, so \<^verbatim>\<open>array_\<close>,
  \<^verbatim>\<open>size_\<close> and \<^verbatim>\<open>capacity_\<close> carry the suffix \<open>m\<close>; \<^verbatim>\<open>begin\<close> and \<^verbatim>\<open>end\<close> are
  \<open>begin_it\<close> and \<open>end_it\<close> (the const overloads and \<^verbatim>\<open>cbegin\<close>, \<^verbatim>\<open>cend\<close> return the same
  positions).
\<close>

record 'a SimpleVector =
  array_m :: "'a ArrayPtr"
  size_m :: size_t
  capacity_m :: size_t

definition begin_it :: "'a SimpleVector \<Rightarrow> Iterator" where
  "begin_it v = 0"

definition end_it :: "'a SimpleVector \<Rightarrow> Iterator" where
  "end_it v = unat (size_m v)"

definition GetSize :: "'a SimpleVector \<Rightarrow> size_t" where
  "GetSize v = size_m v"

definition GetCapacity :: "'a SimpleVector \<Rightarrow> size_t" where
  "GetCapacity v = capacity_m v"

definition IsEmpty :: "'a SimpleVector \<Rightarrow> bool" where
  "IsEmpty v = (size_m v = 0)"


text \<open>
  Modelled from the spec: \<^verbatim>\<open>ArrayPtr::operator[]\<close> ("index into raw storage") is declared in
  the missing \<^verbatim>\<open>array_ptr.h\<close>. It yields the slot at \<open>index\<close>; the caller's use of the
  reference is a read of the value there, which is defined only for a slot of the buffer
  that holds a value.
\<close>

definition ArrayPtr_index :: "'a ArrayPtr \<Rightarrow> size_t \<Rightarrow> error + 'a" where
  "ArrayPtr_index buf index =
     (if unat index < length buf
      then (case buf ! unat index of Some x \<Rightarrow> Inr x | None \<Rightarrow> Inl UndefinedBehaviour)
      else Inl UndefinedBehaviour)"

subsubsection \<open>Constructors\<close>

text \<open>\<^verbatim>\<open>SimpleVector() noexcept = default\<close>: no storage, \<^verbatim>\<open>size_ = 0\<close>, \<^verbatim>\<open>capacity_ = 0\<close>.\<close>

definition SimpleVector_default :: "unit \<Rightarrow> 'a SimpleVector" where
  "SimpleVector_default _ = \<lparr>array_m = [], size_m = 0, capacity_m = 0\<rparr>"

text \<open>
  \<^verbatim>\<open>explicit SimpleVector(size_t size)\<close>; \<open>dflt\<close> is the value of \<^verbatim>\<open>Type()\<close>. The members are
  initialised in the order of their declaration, then the body fills \<open>[begin, end)\<close>.
\<close>

definition SimpleVector_size :: "'a \<Rightarrow> size_t \<Rightarrow> error + 'a SimpleVector" where
  "SimpleVector_size dflt size_arg =
     bind_err (ArrayPtr size_arg) (\<lambda>a.
       let v = \<lparr>array_m = a, size_m = size_arg, capacity_m = size_arg\<rparr> in
       bind_err (std_fill (array_m v) (begin_it v) (end_it v) dflt) (\<lambda>a.
       Inr (v\<lparr>array_m := a\<rparr>)))"

text \<open>
  \<^verbatim>\<open>explicit SimpleVector(ReserveProxyObj reserve)\<close>. The proxy object that the free
  function \<^verbatim>\<open>Reserve\<close> builds holds only a capacity, which is the argument here.
\<close>

definition SimpleVector_reserve :: "size_t \<Rightarrow> error + 'a SimpleVector" where
  "SimpleVector_reserve reserve_capacity =
     bind_err (ArrayPtr reserve_capacity) (\<lambda>a.
       Inr \<lparr>array_m = a, size_m = 0, capacity_m = reserve_capacity\<rparr>)"

text \<open>\<^verbatim>\<open>SimpleVector(size_t size, const Type& value)\<close>.\<close>

definition SimpleVector_fill :: "size_t \<Rightarrow> 'a \<Rightarrow> error + 'a SimpleVector" where
  "SimpleVector_fill size_arg val =
     bind_err (ArrayPtr size_arg) (\<lambda>a.
       let v = \<lparr>array_m = a, size_m = size_arg, capacity_m = size_arg\<rparr> in
       bind_err (std_fill (array_m v) (begin_it v) (end_it v) val) (\<lambda>a.
       Inr (v\<lparr>array_m := a\<rparr>)))"

text \<open>
  \<^verbatim>\<open>SimpleVector(std::initializer_list<Type> init)\<close>: the list's elements are values,
  \<^verbatim>\<open>init.size()\<close> is their number as a \<^verbatim>\<open>size_t\<close>.
\<close>

definition SimpleVector_init :: "'a list \<Rightarrow> error + 'a SimpleVector" where
  "SimpleVector_init init =
     bind_err (ArrayPtr (of_nat (length init))) (\<lambda>a.
       let v = \<lparr>array_m = a, size_m = of_nat (length init), capacity_m = of_nat (length init)\<rparr> in
       bind_err (std_copy (map Some init) 0 (length init) (array_m v) (begin_it v)) (\<lambda>a.
       Inr (v\<lparr>array_m := a\<rparr>)))"

text \<open>\<^verbatim>\<open>SimpleVector(const SimpleVector& other)\<close>: \<open>other\<close> is read, never written.\<close>

definition SimpleVector_copy :: "'a SimpleVector \<Rightarrow> error + 'a SimpleVector" where
  "SimpleVector_copy other =
     bind_err (ArrayPtr (size_m other)) (\<lambda>a.
       let v = \<lparr>array_m = a, size_m = size_m other, capacity_m = size_m other\<rparr> in
       bind_err (std_copy (array_m other) (begin_it other) (end_it other) (array_m v) (begin_it v))
         (\<lambda>a. Inr (v\<lparr>array_m := a\<rparr>)))"

text \<open>
  \<^verbatim>\<open>SimpleVector(SimpleVector&& other) noexcept\<close>: returns the new object and what is left
  of \<open>other\<close>. Modelled from the spec: the move constructor of \<^verbatim>\<open>ArrayPtr\<close> is declared in the
  missing \<^verbatim>\<open>array_ptr.h\<close>; it takes the storage and leaves its source with no owned storage.
\<close>

definition SimpleVector_move :: "'a SimpleVector \<Rightarrow> 'a SimpleVector \<times> 'a SimpleVector" where
  "SimpleVector_move other =
     (let v = \<lparr>array_m = array_m other, size_m = size_m other, capacity_m = capacity_m other\<rparr>;
          other = other\<lparr>array_m := []\<rparr>;
          other = other\<lparr>size_m := 0\<rparr>;
          other = other\<lparr>capacity_m := 0\<rparr>
      in (v, other))"

subsubsection \<open>Member functions on one object\<close>

definition PushBack :: "'a \<Rightarrow> 'a SimpleVector \<Rightarrow> error + 'a SimpleVector" where
  "PushBack item v =
     bind_err
       (if size_m v = capacity_m v then
          (let new_capacity = (if capacity_m v = 0 then 1 else 2 * capacity_m v) in
           bind_err (ArrayPtr new_capacity) (\<lambda>new_array.
           bind_err (std_move (array_m v) (begin_it v) (end_it v) new_array 0) (\<lambda>new_array.
           Inr (v\<lparr>array_m := new_array, capacity_m := new_capacity\<rparr>))))
        else Inr v)
       (\<lambda>v.
          bind_err (placement_new (array_m v) (unat (size_m v)) item) (\<lambda>a.
          Inr (v\<lparr>array_m := a, size_m := size_m v + 1\<rparr>)))"

definition PopBack :: "build \<Rightarrow> 'a SimpleVector \<Rightarrow> error + 'a SimpleVector" where
  "PopBack b v =
     bind_err (assert b (size_m v > 0)) (\<lambda>_.
     Inr (v\<lparr>size_m := size_m v - 1\<rparr>))"

text \<open>
  \<^verbatim>\<open>Insert(ConstIterator pos, Container&& value)\<close> takes \<open>value\<close> by reference: the function
  holds the caller's object, not a copy, and reads it where the source names it. The
  object is either a slot of this vector's own buffer (as in \<^verbatim>\<open>v.Insert(pos, v[2])\<close>),
  given by its offset, or an object elsewhere, given by its value. Reading the reference
  reads what the slot holds at that moment.
\<close>

datatype 'a reference = Object 'a | Slot Iterator

definition read_value :: "'a ArrayPtr \<Rightarrow> 'a reference \<Rightarrow> error + 'a" where
  "read_value buf r =
     (case r of
        Object x \<Rightarrow> Inr x
      | Slot p \<Rightarrow>
          (if p < length buf
           then (case buf ! p of Some x \<Rightarrow> Inr x | None \<Rightarrow> Inl UndefinedBehaviour)
           else Inl UndefinedBehaviour))"

text \<open>
  Line 99, in the growth branch of \<^verbatim>\<open>Insert\<close>:
  \<^verbatim>\<open>new(new_array.Get() + index) Type(std::forward<U>(value));\<close>
  Neither the class nor the function declares a \<^verbatim>\<open>U\<close> (the template parameter is
  \<^verbatim>\<open>Container\<close>, which the other branch names on line 106). The statement is ill-formed,
  and the model gives it no result.
\<close>

definition construct_forward_U ::
  "'a ArrayPtr \<Rightarrow> nat \<Rightarrow> 'a reference \<Rightarrow> error + 'a ArrayPtr" where
  "construct_forward_U new_array p val = Inl IllFormed"

text \<open>
  \<^verbatim>\<open>Insert\<close> returns the iterator \<^verbatim>\<open>begin() + index\<close>. In the branch without growth, line 105
  shifts the elements and line 106 then reads \<open>value\<close> from the shifted buffer.
\<close>

definition Insert ::
  "Iterator \<Rightarrow> 'a reference \<Rightarrow> 'a SimpleVector \<Rightarrow> error + 'a SimpleVector \<times> Iterator" where
  "Insert pos val v =
     bind_err (ptr_diff (array_m v) pos) (\<lambda>index.
     bind_err
       (if size_m v = capacity_m v then
          (let new_capacity = (if capacity_m v = 0 then 1 else 2 * capacity_m v) in
           bind_err (ArrayPtr new_capacity) (\<lambda>new_array.
           bind_err (std_move (array_m v) (begin_it v) (begin_it v + unat index) new_array 0)
             (\<lambda>new_array.
           bind_err (construct_forward_U new_array (unat index) val) (\<lambda>new_array.
           bind_err (std_move (array_m v) (begin_it v + unat index) (end_it v)
                       new_array (unat index + 1)) (\<lambda>new_array.
           Inr (v\<lparr>array_m := new_array, capacity_m := new_capacity\<rparr>))))))
        else
          bind_err (std_move_backward (array_m v) (begin_it v + unat index) (end_it v)
                      (end_it v + 1)) (\<lambda>a.
          bind_err (read_value a val) (\<lambda>x.
          bind_err (placement_new a (unat index) x) (\<lambda>a.
          Inr (v\<lparr>array_m := a\<rparr>)))))
       (\<lambda>v. let v = v\<lparr>size_m := size_m v + 1\<rparr> in
          Inr (v, begin_it v + unat index)))"

definition Erase :: "Iterator \<Rightarrow> 'a SimpleVector \<Rightarrow> error + 'a SimpleVector \<times> Iterator" where
  "Erase pos v =
     bind_err (ptr_diff (array_m v) pos) (\<lambda>index.
     bind_err
       (if index < size_m v - 1 then
          bind_err (std_move_within (array_m v) (begin_it v + unat index + 1) (end_it v)
                      (begin_it v + unat index)) (\<lambda>a.
          Inr (v\<lparr>array_m := a\<rparr>))
        else Inr v)
       (\<lambda>v. let v = v\<lparr>size_m := size_m v - 1\<rparr> in
          Inr (v, begin_it v + unat index)))"

definition Reserve :: "size_t \<Rightarrow> 'a SimpleVector \<Rightarrow> error + 'a SimpleVector" where
  "Reserve new_capacity v =
     (if new_capacity > capacity_m v then
        bind_err (ArrayPtr new_capacity) (\<lambda>new_array.
        bind_err (std_move (array_m v) (begin_it v) (end_it v) new_array 0) (\<lambda>new_array.
        Inr (v\<lparr>array_m := new_array, capacity_m := new_capacity\<rparr>)))
      else Inr v)"

text \<open>\<^verbatim>\<open>operator[]\<close> (both overloads): the assertion, then the slot.\<close>

definition operator_index :: "build \<Rightarrow> size_t \<Rightarrow> 'a SimpleVector \<Rightarrow> error + 'a" where
  "operator_index b index v =
     bind_err (assert b (index < size_m v)) (\<lambda>_.
     ArrayPtr_index (array_m v) index)"

text \<open>\<^verbatim>\<open>At\<close> (both overloads) has no assertion: it does the same in every build.\<close>

definition At :: "size_t \<Rightarrow> 'a SimpleVector \<Rightarrow> error + 'a" where
  "At index v =
     (if index \<ge> size_m v then Inl OutOfRange
      else ArrayPtr_index (array_m v) index)"

definition Clear :: "'a SimpleVector \<Rightarrow> 'a SimpleVector" where
  "Clear v = v\<lparr>size_m := 0\<rparr>"

text \<open>
  The loop of \<^verbatim>\<open>Resize\<close>: \<^verbatim>\<open>for (size_t i = size_; i < new_size; ++i) new (p + i) Type();\<close>
\<close>

function default_construct ::
  "'a \<Rightarrow> size_t \<Rightarrow> size_t \<Rightarrow> 'a ArrayPtr \<Rightarrow> error + 'a ArrayPtr" where
  "default_construct dflt i new_size buf =
     (if i < new_size then
        bind_err (placement_new buf (unat i) dflt) (\<lambda>buf.
        default_construct dflt (i + 1) new_size buf)
      else Inr buf)"
  by pat_completeness auto
termination
proof (relation "measure (\<lambda>(dflt, i, new_size, buf). unat new_size - unat i)")
  fix i new_size :: size_t
  assume "i < new_size"
  then have lt: "unat i < unat new_size"
    by (simp add: word_less_nat_alt)
  moreover have "unat new_size < 2 ^ 64"
    using unsigned_less [of new_size, where 'a = nat] by simp
  ultimately have "unat (i + 1) = unat i + 1"
    by (simp add: unat_word_ariths)
  with lt show "((dflt, i + 1, new_size, buf'), (dflt, i, new_size, buf))
      \<in> measure (\<lambda>(dflt, i, new_size, buf). unat new_size - unat i)" for dflt :: 'a and buf buf' :: "'a ArrayPtr"
    by simp
qed simp

declare default_construct.simps [simp del]

definition Resize :: "'a \<Rightarrow> size_t \<Rightarrow> 'a SimpleVector \<Rightarrow> error + 'a SimpleVector" where
  "Resize dflt new_size v =
     bind_err
       (if new_size > capacity_m v then
          bind_err (ArrayPtr new_size) (\<lambda>new_array.
          bind_err (std_move (array_m v) (begin_it v) (end_it v) new_array 0) (\<lambda>new_array.
          bind_err (default_construct dflt (size_m v) new_size new_array) (\<lambda>new_array.
          Inr (v\<lparr>array_m := new_array, capacity_m := new_size\<rparr>))))
        else if new_size > size_m v then
          bind_err (default_construct dflt (size_m v) new_size (array_m v)) (\<lambda>a.
          Inr (v\<lparr>array_m := a\<rparr>))
        else Inr v)
       (\<lambda>v. Inr (v\<lparr>size_m := new_size\<rparr>))"


subsubsection \<open>Member functions on two objects\<close>

text \<open>
  \<^verbatim>\<open>swap\<close> and the two assignment operators take a reference to a second vector, which may
  be the object itself (\<^verbatim>\<open>this != &rhs\<close> is tested in the source). Objects therefore live in
  a store, at addresses; a reference is an address that holds an object.
\<close>

type_synonym addr = nat

type_synonym 'a store = "addr \<Rightarrow> 'a SimpleVector option"

definition deref :: "'a store \<Rightarrow> addr \<Rightarrow> error + 'a SimpleVector" where
  "deref s a = (case s a of None \<Rightarrow> Inl UndefinedBehaviour | Some v \<Rightarrow> Inr v)"

text \<open>
  \<^verbatim>\<open>std::swap(x.f, y.f)\<close> on one member \<open>f\<close> of the objects at \<open>x\<close> and \<open>y\<close>, given by its
  selector and its update: read both, write \<open>x\<close>, then write \<open>y\<close>.
  Modelled from the spec: \<^verbatim>\<open>ArrayPtr::swap\<close> is declared in the missing \<^verbatim>\<open>array_ptr.h\<close>;
  it "exchanges contents with another buffer", which is this exchange on \<^verbatim>\<open>array_\<close>.
\<close>

definition std_swap ::
  "('a SimpleVector \<Rightarrow> 'f) \<Rightarrow> ('f \<Rightarrow> 'a SimpleVector \<Rightarrow> 'a SimpleVector) \<Rightarrow>
   addr \<Rightarrow> addr \<Rightarrow> 'a store \<Rightarrow> 'a store" where
  "std_swap sel upd x y s =
     (let fx = sel (the (s x));
          fy = sel (the (s y));
          s = s(x \<mapsto> upd fy (the (s x)));
          s = s(y \<mapsto> upd fx (the (s y)))
      in s)"

definition swap :: "addr \<Rightarrow> addr \<Rightarrow> 'a store \<Rightarrow> error + 'a store" where
  "swap this other s =
     bind_err (deref s this) (\<lambda>_.
     bind_err (deref s other) (\<lambda>_.
       let s = std_swap array_m (\<lambda>a v. v\<lparr>array_m := a\<rparr>) this other s;
           s = std_swap size_m (\<lambda>n v. v\<lparr>size_m := n\<rparr>) this other s;
           s = std_swap capacity_m (\<lambda>n v. v\<lparr>capacity_m := n\<rparr>) this other s
       in Inr s))"

text \<open>
  \<^verbatim>\<open>operator=(const SimpleVector& rhs)\<close>: the local \<open>copy\<close> is exchanged with \<open>*this\<close> and then
  destroyed with the old contents, so \<open>*this\<close> ends as the copy.
\<close>

definition copy_assign :: "addr \<Rightarrow> addr \<Rightarrow> 'a store \<Rightarrow> error + 'a store" where
  "copy_assign this rhs s =
     bind_err (deref s this) (\<lambda>_.
     bind_err (deref s rhs) (\<lambda>r.
       if this \<noteq> rhs then
         bind_err (SimpleVector_copy r) (\<lambda>copy. Inr (s(this \<mapsto> copy)))
       else Inr s))"

text \<open>
  \<^verbatim>\<open>operator=(SimpleVector&& rhs) noexcept\<close>.
  Modelled from the spec: the move assignment of \<^verbatim>\<open>ArrayPtr\<close> is declared in the missing
  \<^verbatim>\<open>array_ptr.h\<close>; it "takes ownership of the right-hand side's storage" and leaves the
  right-hand side with no owned storage.
\<close>

definition move_assign :: "addr \<Rightarrow> addr \<Rightarrow> 'a store \<Rightarrow> error + 'a store" where
  "move_assign this rhs s =
     bind_err (deref s this) (\<lambda>t.
     bind_err (deref s rhs) (\<lambda>r.
       if this \<noteq> rhs then
         (let t = t\<lparr>array_m := array_m r\<rparr>; r = r\<lparr>array_m := []\<rparr>;
              t = t\<lparr>size_m := size_m r\<rparr>; r = r\<lparr>size_m := 0\<rparr>;
              t = t\<lparr>capacity_m := capacity_m r\<rparr>; r = r\<lparr>capacity_m := 0\<rparr>
          in Inr (s(this \<mapsto> t, rhs \<mapsto> r)))
       else Inr s))"

subsection \<open>Client programs\<close>

text \<open>
  A client program is a sequence of calls of the public interface on objects in the store.
  A constructor call creates its object at an address that holds none. The reference
  that \<open>CallInsert\<close> passes is to an object elsewhere or to a slot of the vector it is
  called on.
\<close>

datatype 'a call =
    New addr
  | NewSize addr size_t
  | NewReserve addr size_t
  | NewFill addr size_t 'a
  | NewInit addr "'a list"
  | NewCopy addr addr
  | NewMove addr addr
  | AssignCopy addr addr
  | AssignMove addr addr
  | CallPushBack addr 'a
  | CallPopBack addr
  | CallInsert addr Iterator "'a reference"
  | CallErase addr Iterator
  | CallSwap addr addr
  | CallReserve addr size_t
  | CallClear addr
  | CallResize addr size_t

definition construct :: "addr \<Rightarrow> error + 'a SimpleVector \<Rightarrow> 'a store \<Rightarrow> error + 'a store" where
  "construct a r s =
     (case s a of
        Some _ \<Rightarrow> Inl UndefinedBehaviour
      | None \<Rightarrow> bind_err r (\<lambda>v. Inr (s(a \<mapsto> v))))"

definition on_object ::
  "addr \<Rightarrow> ('a SimpleVector \<Rightarrow> error + 'a SimpleVector) \<Rightarrow> 'a store \<Rightarrow> error + 'a store" where
  "on_object a f s =
     bind_err (deref s a) (\<lambda>v. bind_err (f v) (\<lambda>v'. Inr (s(a \<mapsto> v'))))"

text \<open>One call, in a build \<open>b\<close>, for an element type whose \<^verbatim>\<open>Type()\<close> is \<open>dflt\<close>.\<close>

fun exec :: "build \<Rightarrow> 'a \<Rightarrow> 'a call \<Rightarrow> 'a store \<Rightarrow> error + 'a store" where
  "exec b dflt (New a) s = construct a (Inr (SimpleVector_default ())) s"
| "exec b dflt (NewSize a n) s = construct a (SimpleVector_size dflt n) s"
| "exec b dflt (NewReserve a n) s = construct a (SimpleVector_reserve n) s"
| "exec b dflt (NewFill a n x) s = construct a (SimpleVector_fill n x) s"
| "exec b dflt (NewInit a xs) s = construct a (SimpleVector_init xs) s"
| "exec b dflt (NewCopy a other) s =
     bind_err (deref s other) (\<lambda>v. construct a (SimpleVector_copy v) s)"
| "exec b dflt (NewMove a other) s =
     bind_err (deref s other) (\<lambda>v.
       let (new, left) = SimpleVector_move v in construct a (Inr new) (s(other \<mapsto> left)))"
| "exec b dflt (AssignCopy a rhs) s = copy_assign a rhs s"
| "exec b dflt (AssignMove a rhs) s = move_assign a rhs s"
| "exec b dflt (CallPushBack a x) s = on_object a (PushBack x) s"
| "exec b dflt (CallPopBack a) s = on_object a (PopBack b) s"
| "exec b dflt (CallInsert a pos x) s =
     on_object a (\<lambda>v. bind_err (Insert pos x v) (\<lambda>(v', it). Inr v')) s"
| "exec b dflt (CallErase a pos) s =
     on_object a (\<lambda>v. bind_err (Erase pos v) (\<lambda>(v', it). Inr v')) s"
| "exec b dflt (CallSwap a other) s = swap a other s"
| "exec b dflt (CallReserve a n) s = on_object a (Reserve n) s"
| "exec b dflt (CallClear a) s = on_object a (\<lambda>v. Inr (Clear v)) s"
| "exec b dflt (CallResize a n) s = on_object a (Resize dflt n) s"

text \<open>A program starts with no objects.\<close>

definition no_objects :: "'a store" where
  "no_objects = (\<lambda>a. None)"

fun run :: "build \<Rightarrow> 'a \<Rightarrow> 'a call list \<Rightarrow> 'a store \<Rightarrow> error + 'a store" where
  "run b dflt [] s = Inr s"
| "run b dflt (c # cs) s = bind_err (exec b dflt c s) (run b dflt cs)"

subsection \<open>The class invariant and the element sequence\<close>

text \<open>
  The live elements: the values in the slots \<open>[0, size_)\<close>, front to back (what iterating
  from \<^verbatim>\<open>begin()\<close> to \<^verbatim>\<open>end()\<close> visits).
\<close>

definition elems :: "'a SimpleVector \<Rightarrow> 'a list" where
  "elems v = map the (take (unat (size_m v)) (array_m v))"

text \<open>
  A well-formed vector: \<open>size_ \<le> capacity_\<close>, the buffer has \<open>capacity_\<close> slots (fewer than
  \<open>2^63\<close>, as every allocated buffer has), and the slots \<open>[0, size_)\<close> hold values.
\<close>

definition well_formed :: "'a SimpleVector \<Rightarrow> bool" where
  "well_formed v \<longleftrightarrow>
     size_m v \<le> capacity_m v \<and>
     length (array_m v) = unat (capacity_m v) \<and>
     unat (capacity_m v) < 2 ^ 63 \<and>
     None \<notin> set (take (unat (size_m v)) (array_m v))"


text \<open>A store in which every object is well-formed.\<close>

definition store_ok :: "'a store \<Rightarrow> bool" where
  "store_ok s \<longleftrightarrow> (\<forall>a v. s a = Some v \<longrightarrow> well_formed v)"

text \<open>
  The precondition that \<^verbatim>\<open>PopBack\<close> states in its assertion, \<^verbatim>\<open>size_ > 0\<close>, as a property of
  a call and of a whole program: every \<^verbatim>\<open>PopBack\<close> that the program reaches finds its
  vector non-empty.
\<close>

fun pop_in_contract :: "'a call \<Rightarrow> 'a store \<Rightarrow> bool" where
  "pop_in_contract (CallPopBack a) s = (case s a of None \<Rightarrow> True | Some v \<Rightarrow> \<not> IsEmpty v)"
| "pop_in_contract c s = True"

fun pops_in_contract :: "build \<Rightarrow> 'a \<Rightarrow> 'a call list \<Rightarrow> 'a store \<Rightarrow> bool" where
  "pops_in_contract b dflt [] s = True"
| "pops_in_contract b dflt (c # cs) s =
     (pop_in_contract c s \<and>
      (case exec b dflt c s of Inl e \<Rightarrow> True | Inr s' \<Rightarrow> pops_in_contract b dflt cs s'))"

section \<open>Properties\<close>

subsection \<open>What the loops compute\<close>

text \<open>
  Each loop returns when its ranges lie inside the buffers; the result has the length of
  the destination, the moved slots hold the source values and every other slot is as before.
\<close>

lemma std_move_ok:
  "first \<le> last_p \<Longrightarrow> last_p \<le> length src \<Longrightarrow> d + (last_p - first) \<le> length dst \<Longrightarrow>
   \<exists>r. std_move src first last_p dst d = Inr r \<and> length r = length dst \<and>
       (\<forall>j<last_p - first. r ! (d + j) = src ! (first + j)) \<and>
       (\<forall>k<length dst. k < d \<or> d + (last_p - first) \<le> k \<longrightarrow> r ! k = dst ! k)"
proof (induction src first last_p dst d rule: std_move.induct)
  case (1 src first last_p dst d)
  show ?case
  proof (cases "first = last_p")
    case True
    then show ?thesis by (subst std_move.simps) auto
  next
    case False
    with "1.prems" have lt: "first < last_p" "first < length src" "d < length dst"
      by auto
    let ?dst = "dst[d := src ! first]"
    have "\<exists>r. std_move src (first + 1) last_p ?dst (d + 1) = Inr r \<and> length r = length ?dst \<and>
       (\<forall>j<last_p - (first + 1). r ! (d + 1 + j) = src ! (first + 1 + j)) \<and>
       (\<forall>k<length ?dst. k < d + 1 \<or> d + 1 + (last_p - (first + 1)) \<le> k \<longrightarrow> r ! k = ?dst ! k)"
      using "1.prems" lt False by (intro "1.IH") auto
    then obtain r where r: "std_move src (first + 1) last_p ?dst (d + 1) = Inr r"
      "length r = length ?dst"
      "\<forall>j<last_p - (first + 1). r ! (d + 1 + j) = src ! (first + 1 + j)"
      "\<forall>k<length ?dst. k < d + 1 \<or> d + 1 + (last_p - (first + 1)) \<le> k \<longrightarrow> r ! k = ?dst ! k"
      by blast
    have eq: "std_move src first last_p dst d = Inr r"
      using False lt r(1) by (subst std_move.simps) simp
    have a: "r ! (d + j) = src ! (first + j)" if "j < last_p - first" for j
    proof (cases j)
      case 0
      with r(4)[rule_format, of d] lt show ?thesis by simp
    next
      case (Suc j')
      with that r(3)[rule_format, of j'] show ?thesis by simp
    qed
    have b: "r ! k = dst ! k" if "k < length dst" "k < d \<or> d + (last_p - first) \<le> k" for k
    proof -
      from that lt have "k \<noteq> d" "k < d + 1 \<or> d + 1 + (last_p - (first + 1)) \<le> k" by auto
      with r(4)[rule_format, of k] that(1) show ?thesis by simp
    qed
    from eq r(2) a b show ?thesis by simp
  qed
qed

lemma std_move_within_ok:
  "first \<le> last_p \<Longrightarrow> last_p \<le> length buf \<Longrightarrow> d \<le> first \<Longrightarrow>
   \<exists>r. std_move_within buf first last_p d = Inr r \<and> length r = length buf \<and>
       (\<forall>j<last_p - first. r ! (d + j) = buf ! (first + j)) \<and>
       (\<forall>k<length buf. k < d \<or> d + (last_p - first) \<le> k \<longrightarrow> r ! k = buf ! k)"
proof (induction buf first last_p d rule: std_move_within.induct)
  case (1 buf first last_p d)
  show ?case
  proof (cases "first = last_p")
    case True
    then show ?thesis by (subst std_move_within.simps) auto
  next
    case False
    with "1.prems" have lt: "first < last_p" "first < length buf" "d < length buf" "d \<le> first"
      by auto
    let ?b = "buf[d := buf ! first]"
    have "\<exists>r. std_move_within ?b (first + 1) last_p (d + 1) = Inr r \<and> length r = length ?b \<and>
       (\<forall>j<last_p - (first + 1). r ! (d + 1 + j) = ?b ! (first + 1 + j)) \<and>
       (\<forall>k<length ?b. k < d + 1 \<or> d + 1 + (last_p - (first + 1)) \<le> k \<longrightarrow> r ! k = ?b ! k)"
      using "1.prems" lt False by (intro "1.IH") auto
    then obtain r where r: "std_move_within ?b (first + 1) last_p (d + 1) = Inr r"
      "length r = length ?b"
      "\<forall>j<last_p - (first + 1). r ! (d + 1 + j) = ?b ! (first + 1 + j)"
      "\<forall>k<length ?b. k < d + 1 \<or> d + 1 + (last_p - (first + 1)) \<le> k \<longrightarrow> r ! k = ?b ! k"
      by blast
    have eq: "std_move_within buf first last_p d = Inr r"
      using False lt r(1) by (subst std_move_within.simps) simp
    have a: "r ! (d + j) = buf ! (first + j)" if "j < last_p - first" for j
    proof (cases j)
      case 0
      with r(4)[rule_format, of d] lt show ?thesis by simp
    next
      case (Suc j')
      with that r(3)[rule_format, of j'] lt show ?thesis by simp
    qed
    have b: "r ! k = buf ! k" if "k < length buf" "k < d \<or> d + (last_p - first) \<le> k" for k
    proof -
      from that lt have "k \<noteq> d" "k < d + 1 \<or> d + 1 + (last_p - (first + 1)) \<le> k" by auto
      with r(4)[rule_format, of k] that(1) show ?thesis by simp
    qed
    from eq r(2) a b show ?thesis by simp
  qed
qed

lemma std_move_backward_ok:
  "first + n + s \<le> length buf \<Longrightarrow>
   \<exists>r. std_move_backward buf first (first + n) (first + n + s) = Inr r \<and> length r = length buf \<and>
       (\<forall>j<n. r ! (first + s + j) = buf ! (first + j)) \<and>
       (\<forall>k<length buf. k < first + s \<or> first + n + s \<le> k \<longrightarrow> r ! k = buf ! k)"
proof (induction n arbitrary: buf)
  case 0
  then show ?case by (subst std_move_backward.simps) auto
next
  case (Suc n)
  let ?b = "buf[first + n + s := buf ! (first + n)]"
  from Suc.prems have "first + n + s \<le> length ?b" by simp
  from Suc.IH[OF this] obtain r where r:
    "std_move_backward ?b first (first + n) (first + n + s) = Inr r"
    "length r = length ?b"
    "\<forall>j<n. r ! (first + s + j) = ?b ! (first + j)"
    "\<forall>k<length ?b. k < first + s \<or> first + n + s \<le> k \<longrightarrow> r ! k = ?b ! k"
    by blast
  have eq: "std_move_backward buf first (first + Suc n) (first + Suc n + s) = Inr r"
    using Suc.prems r(1) by (subst std_move_backward.simps) simp
  have a: "r ! (first + s + j) = buf ! (first + j)" if "j < Suc n" for j
  proof (cases "j = n")
    case True
    with r(4)[rule_format, of "first + n + s"] Suc.prems show ?thesis by (simp add: add.commute add.left_commute)
  next
    case False
    with that r(3)[rule_format, of j] show ?thesis by simp
  qed
  have b: "r ! k = buf ! k" if "k < length buf" "k < first + s \<or> first + Suc n + s \<le> k" for k
  proof -
    from that have "k \<noteq> first + n + s" "k < first + s \<or> first + n + s \<le> k" by auto
    with r(4)[rule_format, of k] that(1) show ?thesis by simp
  qed
  from eq r(2) a b show ?case by simp
qed

lemma std_fill_ok:
  "first \<le> last_p \<Longrightarrow> last_p \<le> length buf \<Longrightarrow>
   \<exists>r. std_fill buf first last_p x = Inr r \<and> length r = length buf \<and>
       (\<forall>k<length buf. r ! k = (if first \<le> k \<and> k < last_p then Some x else buf ! k))"
proof (induction buf first last_p x rule: std_fill.induct)
  case (1 buf first last_p x)
  show ?case
  proof (cases "first = last_p")
    case True
    then show ?thesis by (subst std_fill.simps) auto
  next
    case False
    with "1.prems" have lt: "first < last_p" "first < length buf"
      by auto
    let ?b = "buf[first := Some x]"
    have "\<exists>r. std_fill ?b (first + 1) last_p x = Inr r \<and> length r = length ?b \<and>
           (\<forall>k<length ?b. r ! k = (if first + 1 \<le> k \<and> k < last_p then Some x else ?b ! k))"
      using "1.prems" lt False by (intro "1.IH") auto
    then obtain r where r: "std_fill ?b (first + 1) last_p x = Inr r"
      "length r = length ?b"
      "\<forall>k<length ?b. r ! k = (if first + 1 \<le> k \<and> k < last_p then Some x else ?b ! k)"
      by blast
    have eq: "std_fill buf first last_p x = Inr r"
      using False lt r(1) by (subst std_fill.simps) simp
    have "r ! k = (if first \<le> k \<and> k < last_p then Some x else buf ! k)"
      if "k < length buf" for k
      using r(3)[rule_format, of k] lt that by (cases "k = first") auto
    with eq r(2) show ?thesis by simp
  qed
qed


subsection \<open>Well-formed vectors\<close>

lemma unat_size_t_bound: "unat (n :: size_t) < 2 ^ 64"
  using unsigned_less [of n, where 'a = nat] by simp

lemma unat_succ: "unat (n :: size_t) < 2 ^ 63 \<Longrightarrow> unat (n + 1) = unat n + 1"
  by (simp add: unat_word_ariths)

lemma well_formed_size_le: "well_formed v \<Longrightarrow> unat (size_m v) \<le> unat (capacity_m v)"
  by (simp add: well_formed_def word_le_nat_alt)

lemma well_formed_length: "well_formed v \<Longrightarrow> length (array_m v) = unat (capacity_m v)"
  by (simp add: well_formed_def)

lemma well_formed_capacity_bound: "well_formed v \<Longrightarrow> unat (capacity_m v) < 2 ^ 63"
  by (simp add: well_formed_def)

lemma length_elems: "well_formed v \<Longrightarrow> length (elems v) = unat (size_m v)"
  using well_formed_size_le [of v] by (simp add: elems_def well_formed_length)

lemma well_formed_live: "well_formed v \<Longrightarrow> i < unat (size_m v) \<Longrightarrow> array_m v ! i = Some (elems v ! i)"
proof -
  assume w: "well_formed v" and i: "i < unat (size_m v)"
  from w i have len: "i < length (take (unat (size_m v)) (array_m v))"
    using well_formed_size_le [of v] by (simp add: well_formed_length)
  then have "take (unat (size_m v)) (array_m v) ! i \<in> set (take (unat (size_m v)) (array_m v))"
    by (rule nth_mem)
  moreover from w have "None \<notin> set (take (unat (size_m v)) (array_m v))"
    by (simp add: well_formed_def)
  ultimately have "take (unat (size_m v)) (array_m v) ! i \<noteq> None"
    by metis
  with len i show ?thesis
    by (auto simp: elems_def)
qed

lemma well_formedI:
  "unat (size_m v) \<le> unat (capacity_m v) \<Longrightarrow> length (array_m v) = unat (capacity_m v) \<Longrightarrow>
   unat (capacity_m v) < 2 ^ 63 \<Longrightarrow> (\<And>i. i < unat (size_m v) \<Longrightarrow> array_m v ! i \<noteq> None) \<Longrightarrow>
   well_formed v"
  by (auto simp: well_formed_def word_le_nat_alt in_set_conv_nth)

lemma elems_eqI:
  "well_formed v \<Longrightarrow> length xs = unat (size_m v) \<Longrightarrow>
   (\<And>i. i < unat (size_m v) \<Longrightarrow> array_m v ! i = Some (xs ! i)) \<Longrightarrow> elems v = xs"
  using well_formed_size_le [of v]
  by (intro nth_equalityI) (auto simp: elems_def well_formed_length)

lemma ArrayPtr_index_live:
  "well_formed v \<Longrightarrow> index < size_m v \<Longrightarrow> ArrayPtr_index (array_m v) index = Inr (elems v ! unat index)"
proof -
  assume w: "well_formed v" and i: "index < size_m v"
  then have lt: "unat index < unat (size_m v)" by (simp add: word_less_nat_alt)
  with w have "unat index < length (array_m v)"
    using well_formed_size_le [of v] by (simp add: well_formed_length)
  with well_formed_live [OF w lt] show ?thesis by (simp add: ArrayPtr_index_def)
qed


subsection \<open>Checked access\<close>

text \<open>
  Claim C4. \<^verbatim>\<open>At\<close> fails with "index out of range" exactly when \<open>index \<ge> size\<close>, and it has
  no build parameter: it is the same function in a debug and in a release build. So
  \<^verbatim>\<open>At(size())\<close> fails in this way, and for a well-formed vector (whose size is below
  \<open>2^63\<close>, so that \<open>size + 5\<close> does not wrap) \<^verbatim>\<open>At(size() + 5)\<close> does too, and when the vector
  is not empty \<^verbatim>\<open>At(size() - 1)\<close> returns the last element.
\<close>

theorem At_out_of_range_iff:
  "(At index v = Inl OutOfRange \<longleftrightarrow> index \<ge> GetSize v) \<and>
   At (GetSize v) v = Inl OutOfRange \<and>
   (well_formed v \<longrightarrow>
      At (GetSize v + 5) v = Inl OutOfRange \<and>
      (GetSize v > 0 \<longrightarrow> At (GetSize v - 1) v = Inr (last (elems v))))"
proof -
  have iff: "At index v = Inl OutOfRange \<longleftrightarrow> index \<ge> size_m v" for index
    by (auto simp: At_def ArrayPtr_index_def split: option.splits)
  have five: "size_m v \<le> size_m v + 5" if w: "well_formed v"
  proof -
    have "unat (size_m v) < 2 ^ 63"
      using well_formed_size_le [OF w] well_formed_capacity_bound [OF w] by simp
    then have "unat (size_m v + 5) = unat (size_m v) + 5"
      by (simp add: unat_word_ariths)
    then show ?thesis by (simp add: word_le_nat_alt)
  qed
  have lst: "At (size_m v - 1) v = Inr (last (elems v))"
    if w: "well_formed v" and pos: "size_m v > 0"
  proof -
    from pos have nz: "size_m v \<noteq> 0" by auto
    then have u: "unat (size_m v - 1) = unat (size_m v) - 1"
      by (rule unat_minus_one)
    from nz have n0: "unat (size_m v) \<noteq> 0" by (simp add: unat_eq_0)
    with u have lt: "size_m v - 1 < size_m v"
      by (simp add: word_less_nat_alt)
    from n0 have "elems v \<noteq> []"
      using length_elems [OF w] by auto
    then have "last (elems v) = elems v ! (unat (size_m v) - 1)"
      by (simp add: last_conv_nth length_elems [OF w])
    with ArrayPtr_index_live [OF w lt] lt u show ?thesis
      by (simp add: At_def)
  qed
  from iff [of index] iff [of "size_m v"] five lst show ?thesis
    by (simp add: GetSize_def iff)
qed

theorem At_out_of_range_iff_witness:
  "well_formed \<lparr>array_m = [Some (1::int), Some 2, None, None], size_m = 2, capacity_m = 4\<rparr> \<and>
   GetSize \<lparr>array_m = [Some (1::int), Some 2, None, None], size_m = 2, capacity_m = 4\<rparr> > 0 \<and>
   At 2 \<lparr>array_m = [Some (1::int), Some 2, None, None], size_m = 2, capacity_m = 4\<rparr>
     = Inl OutOfRange \<and>
   At 7 \<lparr>array_m = [Some (1::int), Some 2, None, None], size_m = 2, capacity_m = 4\<rparr>
     = Inl OutOfRange \<and>
   At 1 \<lparr>array_m = [Some (1::int), Some 2, None, None], size_m = 2, capacity_m = 4\<rparr>
     = Inr 2"
proof -
  let ?v = "\<lparr>array_m = [Some (1::int), Some 2, None, None], size_m = 2, capacity_m = 4\<rparr>"
  have w: "well_formed ?v" by (simp add: well_formed_def)
  from At_out_of_range_iff [of 2 ?v] show ?thesis
    using w by (simp add: GetSize_def elems_def)
qed

subsection \<open>Growth\<close>

text \<open>The doubled capacity \<^verbatim>\<open>capacity_ == 0 ? 1 : 2 * capacity_\<close> does not wrap below \<open>2^63\<close>.\<close>

lemma unat_doubled:
  "unat (c :: size_t) < 2 ^ 63 \<Longrightarrow>
   unat (if c = 0 then 1 else 2 * c) = max 1 (2 * unat c)"
proof (cases "c = 0")
  case True
  then show ?thesis by simp
next
  case False
  then have "unat c \<noteq> 0" by (simp add: unat_eq_0)
  moreover assume "unat c < 2 ^ 63"
  ultimately show ?thesis using False
    by (simp add: unat_word_ariths max_def)
qed

lemma ArrayPtr_ok: "unat n < 2 ^ 63 \<Longrightarrow> ArrayPtr n = Inr (replicate (unat n) None)"
  by (simp add: ArrayPtr_def)

lemma ArrayPtr_fail: "\<not> unat n < 2 ^ 63 \<Longrightarrow> ArrayPtr n = Inl BadAlloc"
  by (simp add: ArrayPtr_def)

text \<open>Moving the live elements into a fresh buffer of \<open>n\<close> slots.\<close>

lemma relocate:
  assumes "well_formed v" and "unat (size_m v) \<le> n"
  shows "\<exists>a. std_move (array_m v) 0 (unat (size_m v)) (replicate n None) 0 = Inr a \<and>
             length a = n \<and>
             (\<forall>i<unat (size_m v). a ! i = array_m v ! i) \<and>
             (\<forall>i<n. unat (size_m v) \<le> i \<longrightarrow> a ! i = None)"
proof -
  from assms have "unat (size_m v) \<le> length (array_m v)"
    using well_formed_size_le [of v] by (simp add: well_formed_length)
  with assms(2) have
    "\<exists>r. std_move (array_m v) 0 (unat (size_m v)) (replicate n None) 0 = Inr r \<and>
       length r = length (replicate n (None :: 'a option)) \<and>
       (\<forall>j<unat (size_m v) - 0. r ! (0 + j) = array_m v ! (0 + j)) \<and>
       (\<forall>k<length (replicate n (None :: 'a option)).
          k < 0 \<or> 0 + (unat (size_m v) - 0) \<le> k \<longrightarrow> r ! k = replicate n None ! k)"
    by (intro std_move_ok) auto
  then show ?thesis by auto
qed


subsection \<open>Inserting one element\<close>

text \<open>
  What \<^verbatim>\<open>PushBack\<close> and the shifting branch of \<^verbatim>\<open>Insert\<close> arrive at: the slots before \<open>i\<close>
  as they were, a value in slot \<open>i\<close>, the old slots \<open>[i, size)\<close> one place to the right.
\<close>

lemma nth_spliced:
  "i \<le> length xs \<Longrightarrow> k \<le> length xs \<Longrightarrow>
   (take i xs @ x # drop i xs) ! k = (if k < i then xs ! k else if k = i then x else xs ! (k - 1))"
proof -
  assume i: "i \<le> length xs" and k: "k \<le> length xs"
  consider "k < i" | "k = i" | "i < k" by arith
  then show ?thesis
  proof cases
    case 1
    with i show ?thesis by (simp add: nth_append)
  next
    case 2
    with i show ?thesis by (simp add: nth_append)
  next
    case 3
    then obtain m where m: "k - i = Suc m" by (cases "k - i") auto
    with 3 have "i + m = k - 1" by arith
    with 3 i m show ?thesis by (simp add: nth_append)
  qed
qed

lemma spliced:
  assumes w: "well_formed v" and i: "i \<le> unat (size_m v)"
    and sz: "size_m v' = size_m v + 1"
    and len: "length (array_m v') = unat (capacity_m v')"
    and cap: "unat (capacity_m v') < 2 ^ 63"
    and room: "unat (size_m v) < unat (capacity_m v')"
    and before: "\<forall>j<i. array_m v' ! j = array_m v ! j"
    and at: "array_m v' ! i = Some x"
    and after: "\<forall>j<unat (size_m v). i \<le> j \<longrightarrow> array_m v' ! (j + 1) = array_m v ! j"
  shows "well_formed v' \<and> unat (size_m v') = unat (size_m v) + 1 \<and>
         elems v' = take i (elems v) @ x # drop i (elems v)"
proof -
  let ?n = "unat (size_m v)"
  let ?xs = "take i (elems v) @ x # drop i (elems v)"
  from room cap have "?n < 2 ^ 63" by simp
  then have n': "unat (size_m v') = ?n + 1"
    using sz by (simp add: unat_succ)
  have le: "length (elems v) = ?n" by (rule length_elems [OF w])
  have slot: "array_m v' ! k = Some (?xs ! k)" if k: "k < ?n + 1" for k
  proof -
    consider "k < i" | "k = i" | "i < k" by arith
    then show ?thesis
    proof cases
      case 1
      with before i have "array_m v' ! k = array_m v ! k" by simp
      also from 1 i have "\<dots> = Some (elems v ! k)" by (intro well_formed_live [OF w]) simp
      finally show ?thesis using 1 i k le by (simp add: nth_spliced)
    next
      case 2
      with at i k le show ?thesis by (simp add: nth_spliced)
    next
      case 3
      then obtain j where j: "k = j + 1" "i \<le> j" by (cases k) auto
      with k have jn: "j < ?n" by simp
      with after j have "array_m v' ! k = array_m v ! j" by simp
      also from jn have "\<dots> = Some (elems v ! j)" by (intro well_formed_live [OF w])
      finally show ?thesis using 3 j i k le by (simp add: nth_spliced)
    qed
  qed
  have wfv': "well_formed v'"
  proof (rule well_formedI)
    show "unat (size_m v') \<le> unat (capacity_m v')" using n' room by simp
    show "length (array_m v') = unat (capacity_m v')" by (rule len)
    show "unat (capacity_m v') < 2 ^ 63" by (rule cap)
    show "array_m v' ! k \<noteq> None" if "k < unat (size_m v')" for k
      using slot [of k] that n' by simp
  qed
  have "elems v' = ?xs"
  proof (rule elems_eqI [OF wfv'])
    show "length ?xs = unat (size_m v')" using n' le i by simp
    show "array_m v' ! k = Some (?xs ! k)" if "k < unat (size_m v')" for k
      using slot [of k] that n' by simp
  qed
  with wfv' n' show ?thesis by simp
qed


lemma unat_of_nat_pos: "pos < 2 ^ 63 \<Longrightarrow> unat (of_nat pos :: size_t) = pos"
  by (simp add: unat_of_nat)


lemma read_value_Object: "read_value buf (Object x) = Inr x"
  by (simp add: read_value_def)

text \<open>The growth branch of \<^verbatim>\<open>Insert\<close> never returns: it ends at line 99 at the latest.\<close>

lemma Insert_full_no_result: "size_m v = capacity_m v \<Longrightarrow> Insert pos val v \<noteq> Inr r"
  by (auto simp: Insert_def bind_err_def construct_forward_U_def Let_def split: sum.splits)

lemma Insert_full_IllFormed:
  assumes w: "well_formed v" and i: "pos \<le> unat (size_m v)"
    and full: "size_m v = capacity_m v" and alloc: "unat (capacity_m v) < 2 ^ 62"
  shows "Insert pos val v = Inl IllFormed"
proof -
  let ?n = "unat (size_m v)"
  let ?nc = "if capacity_m v = 0 then 1 else 2 * capacity_m v :: size_t"
  let ?arr = "array_m v"
  have len: "length ?arr = ?n" using w full by (simp add: well_formed_length)
  from alloc have "unat (capacity_m v) < 2 ^ 63" by simp
  from unat_doubled [OF this] have nc: "unat ?nc = max 1 (2 * ?n)"
    using full by simp
  with alloc full have nc_bound: "unat ?nc < 2 ^ 63" by (simp add: max_def)
  from nc have room: "?n < unat ?nc" by (simp add: max_def)
  from i alloc full have "pos < 2 ^ 63" by simp
  then have idx: "unat (of_nat pos :: size_t) = pos" by (rule unat_of_nat_pos)
  have pd: "ptr_diff ?arr pos = Inr (of_nat pos)"
    using i len by (simp add: ptr_diff_def)
  have al: "ArrayPtr ?nc = Inr (replicate (unat ?nc) (None :: 'a option))"
    using nc_bound by (rule ArrayPtr_ok)
  let ?a0 = "replicate (unat ?nc) (None :: 'a option)"
  have "\<exists>r. std_move ?arr 0 pos ?a0 0 = Inr r \<and> length r = length ?a0 \<and>
       (\<forall>j<pos - 0. r ! (0 + j) = ?arr ! (0 + j)) \<and>
       (\<forall>k<length ?a0. k < 0 \<or> 0 + (pos - 0) \<le> k \<longrightarrow> r ! k = ?a0 ! k)"
    using i len room by (intro std_move_ok) auto
  then obtain a1 where a1: "std_move ?arr 0 pos ?a0 0 = Inr a1"
    by auto
  show ?thesis
    using full pd al a1 idx
    by (simp add: Insert_def bind_err_def begin_it_def end_it_def Let_def construct_forward_U_def)
qed

text \<open>
  The branch without growth: line 105 shifts \<open>[pos, size)\<close> one slot to the right and leaves
  the slots up to \<open>pos\<close> as they were; line 106 reads \<open>value\<close> from that shifted buffer; the
  value read is the one inserted.
\<close>

lemma Insert_shift:
  assumes w: "well_formed v" and i: "pos \<le> unat (size_m v)"
    and spare: "size_m v \<noteq> capacity_m v"
  shows "\<exists>a. std_move_backward (array_m v) pos (unat (size_m v)) (unat (size_m v) + 1) = Inr a \<and>
           length a = length (array_m v) \<and>
           (\<forall>k\<le>pos. a ! k = array_m v ! k) \<and>
           (\<forall>j<unat (size_m v). pos \<le> j \<longrightarrow> a ! (j + 1) = array_m v ! j) \<and>
           (\<forall>e. read_value a val = Inl e \<longrightarrow> Insert pos val v = Inl e) \<and>
           (\<forall>y. read_value a val = Inr y \<longrightarrow>
              (\<exists>v'. Insert pos val v = Inr (v', pos) \<and> capacity_m v' = capacity_m v \<and>
                 well_formed v' \<and> unat (size_m v') = unat (size_m v) + 1 \<and>
                 elems v' = take pos (elems v) @ y # drop pos (elems v)))"
proof -
  let ?n = "unat (size_m v)"
  let ?arr = "array_m v"
  have len: "length ?arr = unat (capacity_m v)" using w by (rule well_formed_length)
  from spare have "?n \<noteq> unat (capacity_m v)" by (simp add: word_unat_eq_iff)
  with well_formed_size_le [OF w] have room: "?n < unat (capacity_m v)" by simp
  from i room well_formed_capacity_bound [OF w] have "pos < 2 ^ 63" by simp
  then have idx: "unat (of_nat pos :: size_t) = pos" by (rule unat_of_nat_pos)
  have pd: "ptr_diff ?arr pos = Inr (of_nat pos)"
    using i len room by (simp add: ptr_diff_def)
  from i obtain n where n: "?n = pos + n" by (auto simp: le_iff_add)
  have "\<exists>r. std_move_backward ?arr pos (pos + n) (pos + n + 1) = Inr r \<and>
       length r = length ?arr \<and>
       (\<forall>j<n. r ! (pos + 1 + j) = ?arr ! (pos + j)) \<and>
       (\<forall>k<length ?arr. k < pos + 1 \<or> pos + n + 1 \<le> k \<longrightarrow> r ! k = ?arr ! k)"
    using len room n by (intro std_move_backward_ok) simp
  then obtain a1 where a1: "std_move_backward ?arr pos ?n (?n + 1) = Inr a1"
    "length a1 = unat (capacity_m v)"
    "\<forall>j<n. a1 ! (pos + 1 + j) = ?arr ! (pos + j)"
    "\<forall>k<unat (capacity_m v). k < pos + 1 \<longrightarrow> a1 ! k = ?arr ! k"
    using n len by auto
  have kept: "\<forall>k\<le>pos. a1 ! k = ?arr ! k"
    using a1(4) i room by simp
  have shifted: "\<forall>j<?n. pos \<le> j \<longrightarrow> a1 ! (j + 1) = ?arr ! j"
  proof (intro allI impI)
    fix j assume j: "j < ?n" "pos \<le> j"
    with n have "j - pos < n" by arith
    with a1(3) have "a1 ! (pos + 1 + (j - pos)) = ?arr ! (pos + (j - pos))" by blast
    with j show "a1 ! (j + 1) = ?arr ! j" by simp
  qed
  have failing: "Insert pos val v = Inl e" if "read_value a1 val = Inl e" for e
    using spare pd a1(1) idx that
    by (simp add: Insert_def bind_err_def begin_it_def end_it_def Let_def)
  have returning: "\<exists>v'. Insert pos val v = Inr (v', pos) \<and> capacity_m v' = capacity_m v \<and>
                 well_formed v' \<and> unat (size_m v') = unat (size_m v) + 1 \<and>
                 elems v' = take pos (elems v) @ y # drop pos (elems v)"
    if rd: "read_value a1 val = Inr y" for y
  proof -
    let ?a2 = "a1[pos := Some y]"
    have pn: "placement_new a1 pos y = Inr ?a2"
      using a1(2) i room by (simp add: placement_new_def)
    let ?v' = "v\<lparr>array_m := ?a2, size_m := size_m v + 1\<rparr>"
    have run: "Insert pos val v = Inr (?v', pos)"
      using spare pd a1(1) rd pn idx
      by (simp add: Insert_def bind_err_def begin_it_def end_it_def Let_def)
    have "well_formed ?v' \<and> unat (size_m ?v') = unat (size_m v) + 1 \<and>
          elems ?v' = take pos (elems v) @ y # drop pos (elems v)"
    proof (rule spliced [OF w i])
      show "size_m ?v' = size_m v + 1" by simp
      show "length (array_m ?v') = unat (capacity_m ?v')" using a1(2) by simp
      show "unat (capacity_m ?v') < 2 ^ 63" using well_formed_capacity_bound [OF w] by simp
      show "unat (size_m v) < unat (capacity_m ?v')" using room by simp
      show "\<forall>j<pos. array_m ?v' ! j = ?arr ! j"
        using kept by simp
      show "array_m ?v' ! pos = Some y"
        using a1(2) i room by simp
      show "\<forall>j<?n. pos \<le> j \<longrightarrow> array_m ?v' ! (j + 1) = ?arr ! j"
        using shifted by simp
    qed
    with run show ?thesis by (intro exI [of _ ?v']) simp
  qed
  from a1(1,2) len kept shifted failing returning show ?thesis
    by (intro exI [of _ a1]) simp
qed

text \<open>
  With a reference to an object elsewhere, the shifting branch inserts that object's
  value.
\<close>

lemma Insert_shift_Object:
  assumes "well_formed v" and "pos \<le> unat (size_m v)" and "size_m v \<noteq> capacity_m v"
  shows "\<exists>v'. Insert pos (Object x) v = Inr (v', pos) \<and> capacity_m v' = capacity_m v \<and>
           well_formed v' \<and> unat (size_m v') = unat (size_m v) + 1 \<and>
           elems v' = take pos (elems v) @ x # drop pos (elems v)"
  using Insert_shift [OF assms, of "Object x"] by (auto simp: read_value_Object)

text \<open>
  With a reference to the vector's own element at index \<open>p\<close>, the shifting branch inserts
  that element only when \<open>p \<le> pos\<close> (for \<open>p = pos\<close> the slot has been moved from when it is
  read, and holds its value still because the moved-from slot keeps it). For \<open>p > pos\<close> the
  element has moved to slot \<open>p + 1\<close> before it is read, and the value inserted is the one
  of index \<open>p - 1\<close>.
\<close>

lemma Insert_shift_Slot:
  assumes w: "well_formed v" and i: "pos \<le> unat (size_m v)"
    and spare: "size_m v \<noteq> capacity_m v" and p: "p < unat (size_m v)"
  shows "\<exists>v'. Insert pos (Slot p) v = Inr (v', pos) \<and>
           elems v' =
             take pos (elems v) @ (if p \<le> pos then elems v ! p else elems v ! (p - 1))
               # drop pos (elems v)"
proof -
  let ?y = "if p \<le> pos then elems v ! p else elems v ! (p - 1)"
  from Insert_shift [OF w i spare, of "Slot p"] obtain a where
    a: "length a = length (array_m v)"
       "\<forall>k\<le>pos. a ! k = array_m v ! k"
       "\<forall>j<unat (size_m v). pos \<le> j \<longrightarrow> a ! (j + 1) = array_m v ! j"
       "\<forall>y. read_value a (Slot p) = Inr y \<longrightarrow>
              (\<exists>v'. Insert pos (Slot p) v = Inr (v', pos) \<and>
                 elems v' = take pos (elems v) @ y # drop pos (elems v))"
    by blast
  have plen: "p < length a"
    using p a(1) well_formed_size_le [OF w] well_formed_length [OF w] by simp
  have "a ! p = Some ?y"
  proof (cases "p \<le> pos")
    case True
    with a(2) have "a ! p = array_m v ! p" by simp
    with well_formed_live [OF w p] True show ?thesis by simp
  next
    case False
    then obtain j where j: "p = j + 1" "pos \<le> j" by (cases p) auto
    with p have jn: "j < unat (size_m v)" by simp
    with a(3) j have "a ! p = array_m v ! j" by simp
    with well_formed_live [OF w jn] False j show ?thesis by simp
  qed
  with plen have "read_value a (Slot p) = Inr ?y" by (simp add: read_value_def)
  with a(4) show ?thesis by blast
qed


subsection \<open>Insert\<close>

text \<open>
  Claim C1 says that \<^verbatim>\<open>Insert\<close> at index \<open>i\<close> puts the inserted value at index \<open>i\<close>, in both
  branches. The code does not, in two ways.

  When the argument is an element of the vector behind the insertion position, line 105
  shifts that element before line 106 reads the reference: on the vector \<open>[1, 2, 3]\<close> with
  capacity \<open>4\<close>, \<^verbatim>\<open>v.Insert(v.begin(), v[2])\<close> is called with the value \<open>3\<close> and leaves
  \<open>[2, 1, 2, 3]\<close>.

  When \<open>size = capacity\<close>, the call reaches line 99, which is ill-formed: on the vector
  \<open>[1, 2, 3]\<close> with capacity \<open>3\<close>, \<^verbatim>\<open>Insert\<close> of a value from elsewhere has no result.
\<close>

theorem Insert_wrong_value:
  "read_value (array_m \<lparr>array_m = [Some (1::int), Some 2, Some 3, None],
                          size_m = 3, capacity_m = 4\<rparr>) (Slot 2) = Inr 3 \<and>
   Insert 0 (Slot 2) \<lparr>array_m = [Some (1::int), Some 2, Some 3, None], size_m = 3, capacity_m = 4\<rparr>
     = Inr (\<lparr>array_m = [Some 2, Some 1, Some 2, Some 3], size_m = 4, capacity_m = 4\<rparr>, 0) \<and>
   elems \<lparr>array_m = [Some (2::int), Some 1, Some 2, Some 3], size_m = 4, capacity_m = 4\<rparr>
     = [2, 1, 2, 3] \<and>
   Insert 1 (Object 9) \<lparr>array_m = [Some (1::int), Some 2, Some 3], size_m = 3, capacity_m = 3\<rparr>
     = Inl IllFormed"
proof (intro conjI)
  show "read_value (array_m \<lparr>array_m = [Some (1::int), Some 2, Some 3, None],
                          size_m = 3, capacity_m = 4\<rparr>) (Slot 2) = Inr 3"
    by (simp add: read_value_def)
  show "Insert 0 (Slot 2)
      \<lparr>array_m = [Some (1::int), Some 2, Some 3, None], size_m = 3, capacity_m = 4\<rparr>
     = Inr (\<lparr>array_m = [Some 2, Some 1, Some 2, Some 3], size_m = 4, capacity_m = 4\<rparr>, 0)"
    by (simp add: Insert_def bind_err_def ptr_diff_def std_move_backward.simps read_value_def
        placement_new_def begin_it_def end_it_def)
  show "elems \<lparr>array_m = [Some (2::int), Some 1, Some 2, Some 3], size_m = 4, capacity_m = 4\<rparr>
     = [2, 1, 2, 3]"
    by (simp add: elems_def)
  show "Insert 1 (Object 9)
      \<lparr>array_m = [Some (1::int), Some 2, Some 3], size_m = 3, capacity_m = 3\<rparr>
     = Inl IllFormed"
    by (simp add: Insert_def bind_err_def ptr_diff_def ArrayPtr_def std_move.simps
        construct_forward_U_def begin_it_def end_it_def)
qed

subsection \<open>PushBack\<close>

lemma PushBack_ok:
  assumes w: "well_formed v"
    and alloc: "size_m v = capacity_m v \<longrightarrow> unat (capacity_m v) < 2 ^ 62"
  shows "\<exists>v'. PushBack x v = Inr v' \<and>
           capacity_m v' =
             (if size_m v = capacity_m v
              then (if capacity_m v = 0 then 1 else 2 * capacity_m v) else capacity_m v) \<and>
           well_formed v' \<and> size_m v' = size_m v + 1 \<and> unat (size_m v') = unat (size_m v) + 1 \<and>
           elems v' = elems v @ [x]"
proof -
  let ?n = "unat (size_m v)"
  let ?arr = "array_m v"
  let ?nc = "if capacity_m v = 0 then 1 else 2 * capacity_m v :: size_t"
  let ?c' = "if size_m v = capacity_m v then ?nc else capacity_m v"
  have "\<exists>v1. (if size_m v = capacity_m v then
                 bind_err (ArrayPtr ?nc) (\<lambda>new_array.
                 bind_err (std_move ?arr 0 ?n new_array 0) (\<lambda>new_array.
                 Inr (v\<lparr>array_m := new_array, capacity_m := ?nc\<rparr>)))
               else Inr v) = Inr v1 \<and>
             size_m v1 = size_m v \<and> capacity_m v1 = ?c' \<and>
             length (array_m v1) = unat ?c' \<and> unat ?c' < 2 ^ 63 \<and> ?n < unat ?c' \<and>
             (\<forall>j<?n. array_m v1 ! j = ?arr ! j)"
  proof (cases "size_m v = capacity_m v")
    case True
    with alloc have b: "unat (capacity_m v) < 2 ^ 63" by simp
    from unat_doubled [OF b] True have nc: "unat ?nc = max 1 (2 * ?n)" by simp
    with alloc True have nc_bound: "unat ?nc < 2 ^ 63" by (simp add: max_def)
    from nc have room: "?n < unat ?nc" by (simp add: max_def)
    have al: "ArrayPtr ?nc = Inr (replicate (unat ?nc) (None :: 'a option))"
      using nc_bound by (rule ArrayPtr_ok)
    from relocate [OF w, of "unat ?nc"] room obtain a where
      a: "std_move ?arr 0 ?n (replicate (unat ?nc) None) 0 = Inr a" "length a = unat ?nc"
         "\<forall>i<?n. a ! i = ?arr ! i"
      by auto
    show ?thesis
      using True al a nc_bound room
      by (intro exI [of _ "v\<lparr>array_m := a, capacity_m := ?nc\<rparr>"]) (simp add: bind_err_def)
  next
    case False
    then have "?n \<noteq> unat (capacity_m v)" by (simp add: word_unat_eq_iff)
    with well_formed_size_le [OF w] have "?n < unat (capacity_m v)" by simp
    with False well_formed_length [OF w] well_formed_capacity_bound [OF w] show ?thesis
      by (intro exI [of _ v]) simp
  qed
  then obtain v1 where v1:
    "(if size_m v = capacity_m v then
        bind_err (ArrayPtr ?nc) (\<lambda>new_array.
        bind_err (std_move ?arr 0 ?n new_array 0) (\<lambda>new_array.
        Inr (v\<lparr>array_m := new_array, capacity_m := ?nc\<rparr>)))
      else Inr v) = Inr v1"
    "size_m v1 = size_m v" "capacity_m v1 = ?c'"
    "length (array_m v1) = unat ?c'" "unat ?c' < 2 ^ 63" "?n < unat ?c'"
    "\<forall>j<?n. array_m v1 ! j = ?arr ! j"
    by blast
  let ?v' = "v1\<lparr>array_m := (array_m v1)[?n := Some x], size_m := size_m v1 + 1\<rparr>"
  have pn: "placement_new (array_m v1) ?n x = Inr ((array_m v1)[?n := Some x])"
    using v1(4,6) by (simp add: placement_new_def)
  have run: "PushBack x v = Inr ?v'"
    unfolding PushBack_def Let_def begin_it_def end_it_def v1(1)
    using pn v1(2) by (simp add: bind_err_def)
  have "well_formed ?v' \<and> unat (size_m ?v') = unat (size_m v) + 1 \<and>
        elems ?v' = take ?n (elems v) @ x # drop ?n (elems v)"
  proof (rule spliced [OF w])
    show "?n \<le> ?n" by simp
    show "size_m ?v' = size_m v + 1" using v1(2) by simp
    show "length (array_m ?v') = unat (capacity_m ?v')" using v1(3,4) by simp
    show "unat (capacity_m ?v') < 2 ^ 63" using v1(3,5) by simp
    show "?n < unat (capacity_m ?v')" using v1(3,6) by simp
    show "\<forall>j<?n. array_m ?v' ! j = ?arr ! j" using v1(7) by simp
    show "array_m ?v' ! ?n = Some x" using v1(4,6) by simp
    show "\<forall>j<?n. ?n \<le> j \<longrightarrow> array_m ?v' ! (j + 1) = ?arr ! j" by simp
  qed
  with run v1(2,3) length_elems [OF w] show ?thesis
    by (intro exI [of _ ?v']) simp
qed

lemma PushBack_BadAlloc:
  "size_m v = capacity_m v \<Longrightarrow> unat (capacity_m v) < 2 ^ 63 \<Longrightarrow>
   \<not> unat (capacity_m v) < 2 ^ 62 \<Longrightarrow> PushBack x v = Inl BadAlloc"
proof -
  assume full: "size_m v = capacity_m v" and b: "unat (capacity_m v) < 2 ^ 63"
    and big: "\<not> unat (capacity_m v) < 2 ^ 62"
  from unat_doubled [OF b] big have "\<not> unat (if capacity_m v = 0 then 1 else 2 * capacity_m v) < 2 ^ 63"
    by (simp add: max_def)
  then have "ArrayPtr (if capacity_m v = 0 then 1 else 2 * capacity_m v) = (Inl BadAlloc :: error + 'a ArrayPtr)"
    by (rule ArrayPtr_fail)
  with full show ?thesis
    by (simp add: PushBack_def bind_err_def Let_def)
qed

text \<open>
  Claim C2. A \<^verbatim>\<open>PushBack\<close> on a well-formed vector that finds \<open>size = capacity\<close> makes the
  capacity \<open>max(1, 2 * capacity)\<close> (when that many slots can be allocated), and every
  \<^verbatim>\<open>PushBack\<close> keeps the elements in order, appends the new value and increments the size.
  Five pushes into a default-constructed vector give the sizes \<open>1, 2, 3, 4, 5\<close> and the
  capacities \<open>1, 2, 4, 4, 8\<close>.
\<close>

theorem PushBack_doubles:
  "(well_formed v \<and> (size_m v = capacity_m v \<longrightarrow> unat (capacity_m v) < 2 ^ 62) \<longrightarrow>
      (\<exists>v'. PushBack x v = Inr v' \<and>
         unat (GetCapacity v') =
           (if GetSize v = GetCapacity v then max 1 (2 * unat (GetCapacity v))
            else unat (GetCapacity v)) \<and>
         unat (GetSize v') = unat (GetSize v) + 1 \<and>
         elems v' = elems v @ [x] \<and> well_formed v')) \<and>
   bind_err (PushBack a (SimpleVector_default ())) (\<lambda>v1.
   bind_err (PushBack b v1) (\<lambda>v2.
   bind_err (PushBack c v2) (\<lambda>v3.
   bind_err (PushBack d v3) (\<lambda>v4.
   bind_err (PushBack e v4) (\<lambda>v5.
     Inr (map (\<lambda>u. (GetSize u, GetCapacity u)) [v1, v2, v3, v4, v5], elems v5))))))
   = Inr ([(1, 1), (2, 2), (3, 4), (4, 4), (5, 8)], [a, b, c, d, e])"
proof (intro conjI impI)
  assume h: "well_formed v \<and> (size_m v = capacity_m v \<longrightarrow> unat (capacity_m v) < 2 ^ 62)"
  then have "well_formed v" by simp
  then have b: "unat (capacity_m v) < 2 ^ 63" by (rule well_formed_capacity_bound)
  from h PushBack_ok [of v x] obtain v' where v': "PushBack x v = Inr v'"
    "capacity_m v' =
       (if size_m v = capacity_m v
        then (if capacity_m v = 0 then 1 else 2 * capacity_m v) else capacity_m v)"
    "well_formed v'" "unat (size_m v') = unat (size_m v) + 1" "elems v' = elems v @ [x]"
    by blast
  from v'(2) unat_doubled [OF b] have
    "unat (capacity_m v') =
       (if size_m v = capacity_m v then max 1 (2 * unat (capacity_m v))
        else unat (capacity_m v))"
    by simp
  with v' show "\<exists>v'. PushBack x v = Inr v' \<and>
         unat (GetCapacity v') =
           (if GetSize v = GetCapacity v then max 1 (2 * unat (GetCapacity v))
            else unat (GetCapacity v)) \<and>
         unat (GetSize v') = unat (GetSize v) + 1 \<and>
         elems v' = elems v @ [x] \<and> well_formed v'"
    by (intro exI [of _ v']) (simp add: GetSize_def GetCapacity_def)
next
  have p1: "PushBack a (SimpleVector_default ()) = Inr \<lparr>array_m = [Some a], size_m = 1, capacity_m = 1\<rparr>"
    by (simp add: PushBack_def SimpleVector_default_def bind_err_def ArrayPtr_def std_move.simps
        placement_new_def begin_it_def end_it_def)
  have p2: "PushBack b \<lparr>array_m = [Some a], size_m = 1, capacity_m = 1\<rparr>
      = Inr \<lparr>array_m = [Some a, Some b], size_m = 2, capacity_m = 2\<rparr>"
    apply (simp add: PushBack_def bind_err_def ArrayPtr_def std_move.simps
        placement_new_def begin_it_def end_it_def)
    apply (simp add: eval_nat_numeral)
    done
  have p3: "PushBack c \<lparr>array_m = [Some a, Some b], size_m = 2, capacity_m = 2\<rparr>
      = Inr \<lparr>array_m = [Some a, Some b, Some c, None], size_m = 3, capacity_m = 4\<rparr>"
    apply (simp add: PushBack_def bind_err_def ArrayPtr_def std_move.simps
        placement_new_def begin_it_def end_it_def)
    apply (simp add: eval_nat_numeral)
    done
  have p4: "PushBack d \<lparr>array_m = [Some a, Some b, Some c, None], size_m = 3, capacity_m = 4\<rparr>
      = Inr \<lparr>array_m = [Some a, Some b, Some c, Some d], size_m = 4, capacity_m = 4\<rparr>"
    by (simp add: PushBack_def bind_err_def placement_new_def)
  have p5: "PushBack e \<lparr>array_m = [Some a, Some b, Some c, Some d], size_m = 4, capacity_m = 4\<rparr>
      = Inr \<lparr>array_m = [Some a, Some b, Some c, Some d, Some e, None, None, None],
               size_m = 5, capacity_m = 8\<rparr>"
    apply (simp add: PushBack_def bind_err_def ArrayPtr_def std_move.simps
        placement_new_def begin_it_def end_it_def)
    apply (simp add: eval_nat_numeral)
    done
  show "bind_err (PushBack a (SimpleVector_default ())) (\<lambda>v1.
   bind_err (PushBack b v1) (\<lambda>v2.
   bind_err (PushBack c v2) (\<lambda>v3.
   bind_err (PushBack d v3) (\<lambda>v4.
   bind_err (PushBack e v4) (\<lambda>v5.
     Inr (map (\<lambda>u. (GetSize u, GetCapacity u)) [v1, v2, v3, v4, v5], elems v5))))))
   = Inr ([(1, 1), (2, 2), (3, 4), (4, 4), (5, 8)], [a, b, c, d, e])"
    by (simp add: p1 p2 p3 p4 p5 bind_err_def GetSize_def GetCapacity_def elems_def)
qed

theorem PushBack_doubles_witness:
  "well_formed \<lparr>array_m = [Some (1::int), Some 2, Some 3], size_m = 3, capacity_m = 3\<rparr> \<and>
   unat (capacity_m \<lparr>array_m = [Some (1::int), Some 2, Some 3], size_m = 3, capacity_m = 3\<rparr>)
     < 2 ^ 62 \<and>
   PushBack 9 \<lparr>array_m = [Some (1::int), Some 2, Some 3], size_m = 3, capacity_m = 3\<rparr> =
     Inr \<lparr>array_m = [Some 1, Some 2, Some 3, Some 9, None, None], size_m = 4, capacity_m = 6\<rparr> \<and>
   elems \<lparr>array_m = [Some (1::int), Some 2, Some 3, Some 9, None, None], size_m = 4, capacity_m = 6\<rparr>
     = [1, 2, 3, 9]"
proof -
  let ?v = "\<lparr>array_m = [Some (1::int), Some 2, Some 3], size_m = 3, capacity_m = 3\<rparr>"
  let ?r = "\<lparr>array_m = [Some (1::int), Some 2, Some 3, Some 9, None, None],
             size_m = 4, capacity_m = 6\<rparr>"
  have w: "well_formed ?v \<and> (size_m ?v = capacity_m ?v \<longrightarrow> unat (capacity_m ?v) < 2 ^ 62)"
    by (simp add: well_formed_def)
  have run: "PushBack 9 ?v = Inr ?r"
    apply (simp add: PushBack_def bind_err_def ArrayPtr_def std_move.simps
        placement_new_def begin_it_def end_it_def)
    apply (simp add: eval_nat_numeral)
    done
  from PushBack_doubles [of ?v 9 0 0 0 0 0, THEN conjunct1, rule_format, OF w] obtain v' where
    "PushBack 9 ?v = Inr v'" "elems v' = elems ?v @ [9]"
    by blast
  with run have "elems ?r = elems ?v @ [9]" by simp
  also have "\<dots> = [1, 2, 3, 9]" by (simp add: elems_def)
  finally show ?thesis using w run by simp
qed


text \<open>
  Where the vector has spare capacity, \<^verbatim>\<open>Insert(end(), x)\<close> of a value from elsewhere and
  \<^verbatim>\<open>PushBack(x)\<close> agree.
\<close>

lemma Insert_end_spare:
  assumes w: "well_formed v" and spare: "size_m v \<noteq> capacity_m v"
  shows "\<exists>v1 v2. PushBack x v = Inr v1 \<and>
           Insert (end_it v) (Object x) v = Inr (v2, unat (GetSize v)) \<and>
           GetSize v2 = GetSize v1 \<and> GetCapacity v2 = GetCapacity v1 \<and>
           elems v2 = elems v1 \<and> elems v1 = elems v @ [x]"
proof -
  from spare have "size_m v = capacity_m v \<longrightarrow> unat (capacity_m v) < 2 ^ 62" by simp
  from PushBack_ok [OF w this, of x] spare obtain v1 where v1: "PushBack x v = Inr v1"
    "capacity_m v1 = capacity_m v"
    "unat (size_m v1) = unat (size_m v) + 1" "elems v1 = elems v @ [x]"
    by auto
  from Insert_shift_Object [OF w le_refl spare, of x] obtain v2 where
    v2: "Insert (unat (size_m v)) (Object x) v = Inr (v2, unat (size_m v))"
    "capacity_m v2 = capacity_m v" "unat (size_m v2) = unat (size_m v) + 1"
    "elems v2 = take (unat (size_m v)) (elems v) @ x # drop (unat (size_m v)) (elems v)"
    by blast
  from v2(3) v1(3) have "size_m v2 = size_m v1" by (simp add: word_unat_eq_iff)
  moreover from v2(4) v1(4) have "elems v2 = elems v1"
    by (simp add: length_elems [OF w])
  ultimately show ?thesis using v1 v2
    by (intro exI [of _ v1] exI [of _ v2]) (simp add: end_it_def GetSize_def GetCapacity_def)
qed

text \<open>
  Claim C10 says that \<^verbatim>\<open>Insert(v.end(), x)\<close> and \<^verbatim>\<open>PushBack(x)\<close> give the same size, capacity
  and elements on every vector. On a vector with \<open>size = capacity\<close> they do not:
  \<^verbatim>\<open>PushBack\<close> grows the buffer and appends, \<^verbatim>\<open>Insert\<close> reaches the ill-formed line 99 and
  has no result. This holds for the full vector \<open>[1, 2, 3]\<close> and for the default-constructed
  one, whose size and capacity are both \<open>0\<close>.
\<close>

theorem Insert_end_full_differs:
  "PushBack 9 \<lparr>array_m = [Some (1::int), Some 2, Some 3], size_m = 3, capacity_m = 3\<rparr> =
     Inr \<lparr>array_m = [Some 1, Some 2, Some 3, Some 9, None, None], size_m = 4, capacity_m = 6\<rparr> \<and>
   Insert (end_it \<lparr>array_m = [Some (1::int), Some 2, Some 3], size_m = 3, capacity_m = 3\<rparr>)
     (Object 9) \<lparr>array_m = [Some (1::int), Some 2, Some 3], size_m = 3, capacity_m = 3\<rparr> =
     Inl IllFormed \<and>
   PushBack (9::int) (SimpleVector_default ()) =
     Inr \<lparr>array_m = [Some 9], size_m = 1, capacity_m = 1\<rparr> \<and>
   Insert (end_it (SimpleVector_default () :: int SimpleVector)) (Object 9)
     (SimpleVector_default ()) = Inl IllFormed"
proof (intro conjI)
  show "PushBack 9 \<lparr>array_m = [Some (1::int), Some 2, Some 3], size_m = 3, capacity_m = 3\<rparr> =
     Inr \<lparr>array_m = [Some 1, Some 2, Some 3, Some 9, None, None], size_m = 4, capacity_m = 6\<rparr>"
    apply (simp add: PushBack_def bind_err_def ArrayPtr_def std_move.simps
        placement_new_def begin_it_def end_it_def)
    apply (simp add: eval_nat_numeral)
    done
  show "Insert (end_it \<lparr>array_m = [Some (1::int), Some 2, Some 3], size_m = 3, capacity_m = 3\<rparr>)
     (Object 9) \<lparr>array_m = [Some (1::int), Some 2, Some 3], size_m = 3, capacity_m = 3\<rparr> =
     Inl IllFormed"
    by (simp add: Insert_def bind_err_def ptr_diff_def ArrayPtr_def std_move.simps
        construct_forward_U_def begin_it_def end_it_def)
  show "PushBack (9::int) (SimpleVector_default ()) =
     Inr \<lparr>array_m = [Some 9], size_m = 1, capacity_m = 1\<rparr>"
    by (simp add: PushBack_def SimpleVector_default_def bind_err_def ArrayPtr_def std_move.simps
        placement_new_def begin_it_def end_it_def)
  show "Insert (end_it (SimpleVector_default () :: int SimpleVector)) (Object 9)
     (SimpleVector_default ()) = Inl IllFormed"
    by (simp add: Insert_def SimpleVector_default_def bind_err_def ptr_diff_def ArrayPtr_def
        std_move.simps construct_forward_U_def begin_it_def end_it_def)
qed

subsection \<open>Erase\<close>

lemma bind_err_Inr: "bind_err (Inr x) f = f x"
  by (simp add: bind_err_def)

lemma bind_err_Inl: "bind_err (Inl e) f = Inl e"
  by (simp add: bind_err_def)

lemma nth_removed:
  "i < length xs \<Longrightarrow> k < length xs - 1 \<Longrightarrow>
   (take i xs @ drop (Suc i) xs) ! k = (if k < i then xs ! k else xs ! (k + 1))"
  by (auto simp: nth_append min_def)

lemma removed:
  assumes w: "well_formed v" and i: "i < unat (size_m v)"
    and sz: "size_m v' = size_m v - 1"
    and cap: "capacity_m v' = capacity_m v"
    and len: "length (array_m v') = length (array_m v)"
    and before: "\<forall>j<i. array_m v' ! j = array_m v ! j"
    and after: "\<forall>j<unat (size_m v) - 1. i \<le> j \<longrightarrow> array_m v' ! j = array_m v ! (j + 1)"
  shows "well_formed v' \<and> unat (size_m v') = unat (size_m v) - 1 \<and>
         elems v' = take i (elems v) @ drop (Suc i) (elems v)"
proof -
  let ?n = "unat (size_m v)"
  let ?xs = "take i (elems v) @ drop (Suc i) (elems v)"
  from i have "size_m v \<noteq> 0" by auto
  then have n': "unat (size_m v') = ?n - 1"
    using sz by (simp add: unat_minus_one)
  have le: "length (elems v) = ?n" by (rule length_elems [OF w])
  have slot: "array_m v' ! k = Some (?xs ! k)" if k: "k < ?n - 1" for k
  proof (cases "k < i")
    case True
    with before have "array_m v' ! k = array_m v ! k" by simp
    also from True i have "\<dots> = Some (elems v ! k)" by (intro well_formed_live [OF w]) simp
    finally show ?thesis using True i k le by (simp add: nth_removed)
  next
    case False
    with after k have "array_m v' ! k = array_m v ! (k + 1)" by simp
    also from k have "\<dots> = Some (elems v ! (k + 1))" by (intro well_formed_live [OF w]) simp
    finally show ?thesis using False i k le by (simp add: nth_removed)
  qed
  have wfv': "well_formed v'"
  proof (rule well_formedI)
    show "unat (size_m v') \<le> unat (capacity_m v')"
      using n' cap well_formed_size_le [OF w] by simp
    show "length (array_m v') = unat (capacity_m v')"
      using len cap well_formed_length [OF w] by simp
    show "unat (capacity_m v') < 2 ^ 63" using cap well_formed_capacity_bound [OF w] by simp
    show "array_m v' ! k \<noteq> None" if "k < unat (size_m v')" for k
      using slot [of k] that n' by simp
  qed
  have "elems v' = ?xs"
  proof (rule elems_eqI [OF wfv'])
    show "length ?xs = unat (size_m v')" using n' le i by (simp add: min_def)
    show "array_m v' ! k = Some (?xs ! k)" if "k < unat (size_m v')" for k
      using slot [of k] that n' by simp
  qed
  with wfv' n' show ?thesis by simp
qed

lemma Erase_ok:
  assumes "well_formed v" and "i < unat (size_m v)"
  shows "\<exists>v'. Erase (begin_it v + i) v = Inr (v', begin_it v' + i) \<and>
           unat (GetSize v') = unat (GetSize v) - 1 \<and>
           elems v' = take i (elems v) @ drop (Suc i) (elems v) \<and>
           (if i + 1 < unat (GetSize v) then elems v' ! i = elems v ! (i + 1)
            else begin_it v' + i = end_it v') \<and>
           GetCapacity v' = GetCapacity v \<and> well_formed v'"
proof -
  let ?n = "unat (size_m v)"
  let ?arr = "array_m v"
  note w = assms(1) and i = assms(2)
  have len: "length ?arr = unat (capacity_m v)" using w by (rule well_formed_length)
  have n_le: "?n \<le> length ?arr" using well_formed_size_le [OF w] len by simp
  from i n_le well_formed_capacity_bound [OF w] len have "i < 2 ^ 63" by simp
  then have idx: "unat (of_nat i :: size_t) = i" by (rule unat_of_nat_pos)
  have pd: "ptr_diff ?arr i = Inr (of_nat i)"
    using i n_le by (simp add: ptr_diff_def)
  from i have nz: "size_m v \<noteq> 0" by auto
  then have n1: "unat (size_m v - 1) = ?n - 1" by (rule unat_minus_one)
  have cond: "(of_nat i :: size_t) < size_m v - 1 \<longleftrightarrow> i < ?n - 1"
    by (simp add: word_less_nat_alt idx n1)
  have "\<exists>v1. (if (of_nat i :: size_t) < size_m v - 1 then
                 bind_err (std_move_within ?arr (i + 1) ?n i) (\<lambda>a. Inr (v\<lparr>array_m := a\<rparr>))
               else Inr v) = Inr v1 \<and>
             size_m v1 = size_m v \<and> capacity_m v1 = capacity_m v \<and>
             length (array_m v1) = length ?arr \<and>
             (\<forall>j<i. array_m v1 ! j = ?arr ! j) \<and>
             (\<forall>j<?n - 1. i \<le> j \<longrightarrow> array_m v1 ! j = ?arr ! (j + 1))"
  proof (cases "i < ?n - 1")
    case True
    have "\<exists>r. std_move_within ?arr (i + 1) ?n i = Inr r \<and> length r = length ?arr \<and>
       (\<forall>j<?n - (i + 1). r ! (i + j) = ?arr ! (i + 1 + j)) \<and>
       (\<forall>k<length ?arr. k < i \<or> i + (?n - (i + 1)) \<le> k \<longrightarrow> r ! k = ?arr ! k)"
      using True n_le by (intro std_move_within_ok) auto
    then obtain r where r: "std_move_within ?arr (i + 1) ?n i = Inr r" "length r = length ?arr"
      "\<forall>j<?n - (i + 1). r ! (i + j) = ?arr ! (i + 1 + j)"
      "\<forall>k<length ?arr. k < i \<longrightarrow> r ! k = ?arr ! k"
      by auto
    have "r ! j = ?arr ! (j + 1)" if j: "j < ?n - 1" "i \<le> j" for j
    proof -
      from j have "j - i < ?n - (i + 1)" by arith
      with r(3) have "r ! (i + (j - i)) = ?arr ! (i + 1 + (j - i))" by blast
      with j show ?thesis by simp
    qed
    moreover have "\<forall>j<i. r ! j = ?arr ! j" using r(4) i n_le by simp
    ultimately show ?thesis using True cond r(1,2)
      by (intro exI [of _ "v\<lparr>array_m := r\<rparr>"]) (simp add: bind_err_def)
  next
    case False
    with cond show ?thesis by (intro exI [of _ v]) simp
  qed
  then obtain v1 where v1:
    "(if (of_nat i :: size_t) < size_m v - 1 then
        bind_err (std_move_within ?arr (i + 1) ?n i) (\<lambda>a. Inr (v\<lparr>array_m := a\<rparr>))
      else Inr v) = Inr v1"
    "size_m v1 = size_m v" "capacity_m v1 = capacity_m v"
    "length (array_m v1) = length ?arr"
    "\<forall>j<i. array_m v1 ! j = ?arr ! j"
    "\<forall>j<?n - 1. i \<le> j \<longrightarrow> array_m v1 ! j = ?arr ! (j + 1)"
    by blast
  let ?v' = "v1\<lparr>size_m := size_m v1 - 1\<rparr>"
  have run: "Erase i v = Inr (?v', i)"
    apply (simp only: Erase_def pd bind_err_Inr begin_it_def end_it_def add_0 idx Let_def)
    apply (simp only: v1(1) bind_err_Inr)
    done
  have r: "well_formed ?v' \<and> unat (size_m ?v') = ?n - 1 \<and>
        elems ?v' = take i (elems v) @ drop (Suc i) (elems v)"
    using v1 by (intro removed [OF w i]) simp_all
  have le: "length (elems v) = ?n" by (rule length_elems [OF w])
  have "elems ?v' ! i = elems v ! (i + 1)" if "i + 1 < ?n"
    using r that i le by (simp add: nth_removed)
  moreover have "i = unat (size_m ?v')" if "\<not> i + 1 < ?n"
    using r that i by simp
  ultimately show ?thesis using run r v1(3)
    by (intro exI [of _ ?v']) (simp add: GetSize_def GetCapacity_def begin_it_def end_it_def)
qed

text \<open>
  Claim C6. For a well-formed vector of size \<open>n > 0\<close> and an index \<open>i < n\<close>, \<^verbatim>\<open>Erase\<close> at
  \<^verbatim>\<open>begin() + i\<close> returns; the size becomes \<open>n - 1\<close>, the elements are the old ones without
  the one at index \<open>i\<close>, in order, and the returned iterator is position \<open>i\<close>: the element
  that followed the erased one, or \<^verbatim>\<open>end()\<close> when the erased element was the last.
\<close>

theorem Erase_correct:
  assumes "well_formed v" and "i < unat (size_m v)"
  shows "\<exists>v'. Erase (begin_it v + i) v = Inr (v', begin_it v' + i) \<and>
           unat (GetSize v') = unat (GetSize v) - 1 \<and>
           elems v' = take i (elems v) @ drop (Suc i) (elems v) \<and>
           (if i + 1 < unat (GetSize v) then elems v' ! i = elems v ! (i + 1)
            else begin_it v' + i = end_it v') \<and>
           GetCapacity v' = GetCapacity v \<and> well_formed v'"
  using assms by (rule Erase_ok)

theorem Erase_correct_witness:
  "well_formed \<lparr>array_m = [Some (1::int), Some 2, Some 3], size_m = 3, capacity_m = 3\<rparr> \<and>
   (1::nat) < unat (size_m \<lparr>array_m = [Some (1::int), Some 2, Some 3], size_m = 3, capacity_m = 3\<rparr>) \<and>
   Erase 1 \<lparr>array_m = [Some (1::int), Some 2, Some 3], size_m = 3, capacity_m = 3\<rparr> =
     Inr (\<lparr>array_m = [Some 1, Some 3, Some 3], size_m = 2, capacity_m = 3\<rparr>, 1) \<and>
   elems \<lparr>array_m = [Some (1::int), Some 3, Some 3], size_m = 2, capacity_m = 3\<rparr> = [1, 3]"
proof -
  let ?v = "\<lparr>array_m = [Some (1::int), Some 2, Some 3], size_m = 3, capacity_m = 3\<rparr>"
  let ?r = "\<lparr>array_m = [Some (1::int), Some 3, Some 3], size_m = 2, capacity_m = 3\<rparr>"
  have w: "well_formed ?v" by (simp add: well_formed_def)
  have i: "1 < unat (size_m ?v)" by simp
  have run: "Erase 1 ?v = Inr (?r, 1)"
    by (simp add: Erase_def bind_err_def ptr_diff_def std_move_within.simps
        begin_it_def end_it_def)
  from Erase_correct [OF w i] obtain v' where
    "Erase (begin_it ?v + 1) ?v = Inr (v', begin_it v' + 1)"
    "elems v' = take 1 (elems ?v) @ drop (Suc 1) (elems ?v)"
    by blast
  with run have "elems ?r = take 1 (elems ?v) @ drop (Suc 1) (elems ?v)"
    by (simp add: begin_it_def)
  also have "\<dots> = [1, 3]" by (simp add: elems_def)
  finally show ?thesis using w run by simp
qed


subsection \<open>Contract violations\<close>

text \<open>
  In a debug build \<^verbatim>\<open>PopBack\<close> on an empty vector and \<^verbatim>\<open>operator[]\<close> with an index outside
  \<open>[0, size)\<close> stop at their assertion. In a release build neither does.
\<close>

lemma PopBack_empty_Debug: "size_m v = 0 \<Longrightarrow> PopBack Debug v = Inl AssertionFailure"
  by (simp add: PopBack_def assert_def bind_err_def)

lemma PopBack_empty_Release:
  "size_m v = 0 \<Longrightarrow> PopBack Release v = Inr (v\<lparr>size_m := - 1\<rparr>)"
  by (simp add: PopBack_def assert_def bind_err_def)

lemma operator_index_outside_Debug:
  "size_m v \<le> index \<Longrightarrow> operator_index Debug index v = Inl AssertionFailure"
  by (simp add: operator_index_def assert_def bind_err_def not_less [symmetric])

lemma operator_index_outside_Release:
  "size_m v \<le> index \<Longrightarrow> operator_index Release index v = ArrayPtr_index (array_m v) index"
  by (simp add: operator_index_def assert_def bind_err_def)

text \<open>
  \<^verbatim>\<open>Erase\<close> has no assertion, so no call of it ends in one, whatever the build.
\<close>

lemma std_move_within_no_assertion: "std_move_within buf first last_p d \<noteq> Inl AssertionFailure"
proof (induction buf first last_p d rule: std_move_within.induct)
  case (1 buf first last_p d)
  then show ?case by (subst std_move_within.simps) simp
qed

lemma Erase_no_assertion: "Erase pos v \<noteq> Inl AssertionFailure"
  using std_move_within_no_assertion [of "array_m v"]
  by (auto simp: Erase_def bind_err_def ptr_diff_def Let_def split: sum.splits if_splits)

text \<open>
  Claim C3 says that \<^verbatim>\<open>PopBack\<close> on an empty vector, \<^verbatim>\<open>operator[]\<close> outside \<open>[0, size)\<close> and
  \<^verbatim>\<open>Erase\<close> on the end position each stop at an assertion in a debug build. The first two
  do (lemmas above). \<^verbatim>\<open>Erase\<close> does not: on the vector \<open>[1, 2, 3]\<close> with capacity \<open>3\<close>,
  \<^verbatim>\<open>Erase(end())\<close> returns, the size is \<open>2\<close> and the last element is gone.
\<close>

theorem Erase_end_returns:
  "Erase (end_it \<lparr>array_m = [Some (1::int), Some 2, Some 3], size_m = 3, capacity_m = 3\<rparr>)
     \<lparr>array_m = [Some (1::int), Some 2, Some 3], size_m = 3, capacity_m = 3\<rparr>
   = Inr (\<lparr>array_m = [Some 1, Some 2, Some 3], size_m = 2, capacity_m = 3\<rparr>, 3)"
  by (simp add: Erase_def bind_err_def ptr_diff_def begin_it_def end_it_def)


subsection \<open>Reserve\<close>

lemma Reserve_grow:
  assumes w: "well_formed v" and gt: "capacity_m v < new_capacity"
    and alloc: "unat new_capacity < 2 ^ 63"
  shows "\<exists>v'. Reserve new_capacity v = Inr v' \<and> capacity_m v' = new_capacity \<and>
           size_m v' = size_m v \<and> elems v' = elems v \<and> well_formed v'"
proof -
  let ?n = "unat (size_m v)"
  from gt have "unat (capacity_m v) < unat new_capacity" by (simp add: word_less_nat_alt)
  with well_formed_size_le [OF w] have room: "?n \<le> unat new_capacity" by simp
  from relocate [OF w room] obtain a where
    a: "std_move (array_m v) 0 ?n (replicate (unat new_capacity) None) 0 = Inr a"
       "length a = unat new_capacity" "\<forall>i<?n. a ! i = array_m v ! i"
    by auto
  let ?v' = "v\<lparr>array_m := a, capacity_m := new_capacity\<rparr>"
  have al: "ArrayPtr new_capacity = Inr (replicate (unat new_capacity) (None :: 'a option))"
    using alloc by (rule ArrayPtr_ok)
  have run: "Reserve new_capacity v = Inr ?v'"
    using gt a(1) al
    by (simp add: Reserve_def bind_err_def begin_it_def end_it_def)
  have slot: "array_m ?v' ! i = Some (elems v ! i)" if "i < ?n" for i
    using that a(3) well_formed_live [OF w that] by simp
  have wfv': "well_formed ?v'"
  proof (rule well_formedI)
    show "unat (size_m ?v') \<le> unat (capacity_m ?v')" using room by simp
    show "length (array_m ?v') = unat (capacity_m ?v')" using a(2) by simp
    show "unat (capacity_m ?v') < 2 ^ 63" using alloc by simp
    show "array_m ?v' ! i \<noteq> None" if "i < unat (size_m ?v')" for i
      using slot [of i] that by simp
  qed
  have "elems ?v' = elems v"
    using slot by (intro elems_eqI [OF wfv']) (simp_all add: length_elems [OF w])
  with run wfv' show ?thesis by (intro exI [of _ ?v']) simp
qed

text \<open>
  Claim C7. \<^verbatim>\<open>Reserve(newCap)\<close> with \<open>newCap \<le> capacity\<close> changes nothing. On a well-formed
  vector, with \<open>newCap > capacity\<close> and \<open>newCap\<close> slots allocatable, the capacity becomes
  exactly \<open>newCap\<close> while the size and the elements stay. Whenever a call returns, the
  capacity has not shrunk and a second call with the same argument changes nothing.
\<close>

theorem Reserve_correct:
  "(new_capacity \<le> GetCapacity v \<longrightarrow> Reserve new_capacity v = Inr v) \<and>
   (well_formed v \<and> GetCapacity v < new_capacity \<and> unat new_capacity < 2 ^ 63 \<longrightarrow>
      (\<exists>v'. Reserve new_capacity v = Inr v' \<and> GetCapacity v' = new_capacity \<and>
         GetSize v' = GetSize v \<and> elems v' = elems v \<and> well_formed v')) \<and>
   (\<forall>v'. Reserve new_capacity v = Inr v' \<longrightarrow>
      GetCapacity v \<le> GetCapacity v' \<and> Reserve new_capacity v' = Inr v')"
proof (intro conjI impI allI)
  assume "new_capacity \<le> GetCapacity v"
  then show "Reserve new_capacity v = Inr v"
    by (simp add: Reserve_def GetCapacity_def not_less [symmetric])
next
  assume "well_formed v \<and> GetCapacity v < new_capacity \<and> unat new_capacity < 2 ^ 63"
  with Reserve_grow [of v new_capacity]
  show "\<exists>v'. Reserve new_capacity v = Inr v' \<and> GetCapacity v' = new_capacity \<and>
               GetSize v' = GetSize v \<and> elems v' = elems v \<and> well_formed v'"
    by (simp add: GetCapacity_def GetSize_def)
next
  fix v' assume r: "Reserve new_capacity v = Inr v'"
  have c: "capacity_m v \<le> capacity_m v' \<and> new_capacity \<le> capacity_m v'"
  proof (cases "capacity_m v < new_capacity")
    case True
    with r have "capacity_m v' = new_capacity"
      by (auto simp: Reserve_def bind_err_def split: sum.splits)
    with True show ?thesis by simp
  next
    case False
    with r have "v' = v" by (simp add: Reserve_def)
    with False show ?thesis by simp
  qed
  then show "GetCapacity v \<le> GetCapacity v'" by (simp add: GetCapacity_def)
  from c show "Reserve new_capacity v' = Inr v'"
    by (simp add: Reserve_def not_less [symmetric])
qed

theorem Reserve_correct_witness:
  "well_formed \<lparr>array_m = [Some (1::int), Some 2, None, None], size_m = 2, capacity_m = 4\<rparr> \<and>
   Reserve 3 \<lparr>array_m = [Some (1::int), Some 2, None, None], size_m = 2, capacity_m = 4\<rparr> =
     Inr \<lparr>array_m = [Some 1, Some 2, None, None], size_m = 2, capacity_m = 4\<rparr> \<and>
   Reserve 6 \<lparr>array_m = [Some (1::int), Some 2, None, None], size_m = 2, capacity_m = 4\<rparr> =
     Inr \<lparr>array_m = [Some 1, Some 2, None, None, None, None], size_m = 2, capacity_m = 6\<rparr> \<and>
   Reserve 6 \<lparr>array_m = [Some (1::int), Some 2, None, None, None, None], size_m = 2, capacity_m = 6\<rparr> =
     Inr \<lparr>array_m = [Some 1, Some 2, None, None, None, None], size_m = 2, capacity_m = 6\<rparr>"
proof -
  let ?v = "\<lparr>array_m = [Some (1::int), Some 2, None, None], size_m = 2, capacity_m = 4\<rparr>"
  let ?r = "\<lparr>array_m = [Some (1::int), Some 2, None, None, None, None], size_m = 2, capacity_m = 6\<rparr>"
  have w: "well_formed ?v" by (simp add: well_formed_def)
  have run: "Reserve 6 ?v = Inr ?r"
    apply (simp add: Reserve_def bind_err_def ArrayPtr_def std_move.simps begin_it_def end_it_def)
    apply (simp add: eval_nat_numeral)
    done
  note t = Reserve_correct [where v = ?v]
  from t [of 3] have a: "Reserve 3 ?v = Inr ?v" by (simp add: GetCapacity_def)
  from t [of 6] w obtain v' where "Reserve 6 ?v = Inr v'" "GetCapacity v' = 6"
    by (auto simp: GetCapacity_def)
  from t [of 6] run have b: "Reserve 6 ?r = Inr ?r" by blast
  from w a run b show ?thesis by simp
qed


subsection \<open>Copy construction\<close>

lemma SimpleVector_copy_ok:
  assumes w: "well_formed v"
  shows "\<exists>c. SimpleVector_copy v = Inr c \<and> size_m c = size_m v \<and> capacity_m c = size_m v \<and>
           elems c = elems v \<and> well_formed c"
proof -
  let ?n = "unat (size_m v)"
  have b: "?n < 2 ^ 63"
    using well_formed_size_le [OF w] well_formed_capacity_bound [OF w] by simp
  have al: "ArrayPtr (size_m v) = Inr (replicate ?n (None :: 'a option))"
    using b by (rule ArrayPtr_ok)
  from relocate [OF w, of ?n] obtain a where
    a: "std_move (array_m v) 0 ?n (replicate ?n None) 0 = Inr a"
       "length a = ?n" "\<forall>i<?n. a ! i = array_m v ! i"
    by auto
  let ?c = "\<lparr>array_m = a, size_m = size_m v, capacity_m = size_m v\<rparr>"
  have run: "SimpleVector_copy v = Inr ?c"
    using al a(1)
    by (simp add: SimpleVector_copy_def std_copy_def bind_err_def begin_it_def end_it_def)
  have slot: "array_m ?c ! i = Some (elems v ! i)" if "i < ?n" for i
    using that a(3) well_formed_live [OF w that] by simp
  have wfc: "well_formed ?c"
  proof (rule well_formedI)
    show "unat (size_m ?c) \<le> unat (capacity_m ?c)" by simp
    show "length (array_m ?c) = unat (capacity_m ?c)" using a(2) by simp
    show "unat (capacity_m ?c) < 2 ^ 63" using b by simp
    show "array_m ?c ! i \<noteq> None" if "i < unat (size_m ?c)" for i
      using slot [of i] that by simp
  qed
  have "elems ?c = elems v"
    using slot by (intro elems_eqI [OF wfc]) (simp_all add: length_elems [OF w])
  with run wfc show ?thesis by (intro exI [of _ ?c]) simp
qed

text \<open>
  Claim C8. Copy construction from a well-formed vector returns a vector with the same
  size, with capacity equal to that size, and with the same elements in order. When the
  copy is then changed by a \<^verbatim>\<open>PushBack\<close>, the original object is what it was: the program
  that copy-constructs the object at \<open>b\<close> from the one at \<open>a\<close> and pushes \<open>x\<close> onto \<open>b\<close> ends in
  a store that differs from the first one only at \<open>b\<close>.
\<close>

theorem copy_is_tight_and_deep:
  assumes "well_formed v"
  shows "\<exists>c. SimpleVector_copy v = Inr c \<and>
           GetSize c = GetSize v \<and> GetCapacity c = GetSize v \<and> elems c = elems v \<and>
           (\<forall>s a b. s a = Some v \<and> s b = None \<and> unat (size_m v) < 2 ^ 62 \<longrightarrow>
              (\<exists>c'. run bld dflt [NewCopy b a, CallPushBack b x] s = Inr (s(b \<mapsto> c')) \<and>
                    elems c' = elems v @ [x] \<and> (s(b \<mapsto> c')) a = Some v))"
proof -
  from SimpleVector_copy_ok [OF assms] obtain c where c: "SimpleVector_copy v = Inr c"
    "size_m c = size_m v" "capacity_m c = size_m v" "elems c = elems v" "well_formed c"
    by blast
  have iso: "\<exists>c'. run bld dflt [NewCopy b a, CallPushBack b x] s = Inr (s(b \<mapsto> c')) \<and>
                    elems c' = elems v @ [x] \<and> (s(b \<mapsto> c')) a = Some v"
    if h: "s a = Some v \<and> s b = None \<and> unat (size_m v) < 2 ^ 62" for s :: "'a store" and a b
  proof -
    from h have ne: "a \<noteq> b" by auto
    from h c(2,3) have "size_m c = capacity_m c \<longrightarrow> unat (capacity_m c) < 2 ^ 62" by simp
    from PushBack_ok [OF c(5) this, of x] obtain c' where
      c': "PushBack x c = Inr c'" "elems c' = elems c @ [x]"
      by blast
    have "run bld dflt [NewCopy b a, CallPushBack b x] s = Inr (s(b \<mapsto> c'))"
      using h c(1) c'(1)
      by (simp add: bind_err_def deref_def construct_def on_object_def)
    with c'(2) c(4) h ne show ?thesis
      by (intro exI [of _ c']) simp
  qed
  from c iso show ?thesis
    by (intro exI [of _ c]) (simp add: GetSize_def GetCapacity_def)
qed

theorem copy_is_tight_and_deep_witness:
  "well_formed \<lparr>array_m = [Some (1::int), Some 2, None, None], size_m = 2, capacity_m = 4\<rparr> \<and>
   SimpleVector_copy \<lparr>array_m = [Some (1::int), Some 2, None, None], size_m = 2, capacity_m = 4\<rparr> =
     Inr \<lparr>array_m = [Some 1, Some 2], size_m = 2, capacity_m = 2\<rparr> \<and>
   (\<exists>c'. run Debug 0 [NewCopy 1 0, CallPushBack 1 9]
       [0 \<mapsto> \<lparr>array_m = [Some (1::int), Some 2, None, None], size_m = 2, capacity_m = 4\<rparr>] =
       Inr ([0 \<mapsto> \<lparr>array_m = [Some (1::int), Some 2, None, None], size_m = 2, capacity_m = 4\<rparr>,
             1 \<mapsto> c']) \<and>
       elems c' = [1, 2, 9])"
proof -
  let ?v = "\<lparr>array_m = [Some (1::int), Some 2, None, None], size_m = 2, capacity_m = 4\<rparr>"
  let ?s = "[0 \<mapsto> ?v] :: int store"
  have w: "well_formed ?v" by (simp add: well_formed_def)
  have run: "SimpleVector_copy ?v = Inr \<lparr>array_m = [Some 1, Some 2], size_m = 2, capacity_m = 2\<rparr>"
    apply (simp add: SimpleVector_copy_def std_copy_def bind_err_def ArrayPtr_def std_move.simps
        begin_it_def end_it_def)
    apply (simp add: eval_nat_numeral)
    done
  from copy_is_tight_and_deep [OF w, where x = 9 and bld = Debug and dflt = 0] obtain c where
    iso: "\<forall>s a b. s a = Some ?v \<and> s b = None \<and> unat (size_m ?v) < 2 ^ 62 \<longrightarrow>
              (\<exists>c'. run Debug 0 [NewCopy b a, CallPushBack b 9] s = Inr (s(b \<mapsto> c')) \<and>
                    elems c' = elems ?v @ [9] \<and> (s(b \<mapsto> c')) a = Some ?v)"
    by blast
  have "?s 0 = Some ?v \<and> ?s 1 = None \<and> unat (size_m ?v) < 2 ^ 62" by simp
  with iso obtain c' where "run Debug 0 [NewCopy 1 0, CallPushBack 1 9] ?s = Inr (?s(1 \<mapsto> c'))"
    "elems c' = elems ?v @ [9]"
    by blast
  moreover have "elems ?v @ [9] = [1, 2, 9]" by (simp add: elems_def)
  ultimately show ?thesis using w run by auto
qed


subsection \<open>Move construction and move assignment\<close>

text \<open>
  Claim C9. The move constructor gives the new object the source's buffer, size and
  capacity and leaves the source with size \<open>0\<close> and capacity \<open>0\<close>. Move assignment from a
  distinct object does the same to the object assigned to. Move assignment of an object
  to itself leaves the store as it is.
\<close>

theorem move_transfers:
  "(case SimpleVector_move v of (new, left) \<Rightarrow>
      GetSize new = GetSize v \<and> GetCapacity new = GetCapacity v \<and>
      array_m new = array_m v \<and> elems new = elems v \<and>
      GetSize left = 0 \<and> GetCapacity left = 0) \<and>
   (s this = Some t \<and> s rhs = Some r \<and> this \<noteq> rhs \<longrightarrow>
      (\<exists>t' r'. move_assign this rhs s = Inr (s(this \<mapsto> t', rhs \<mapsto> r')) \<and>
         GetSize t' = GetSize r \<and> GetCapacity t' = GetCapacity r \<and>
         array_m t' = array_m r \<and> elems t' = elems r \<and>
         GetSize r' = 0 \<and> GetCapacity r' = 0)) \<and>
   (s this = Some t \<longrightarrow> move_assign this this s = Inr s)"
proof (intro conjI impI)
  show "case SimpleVector_move v of (new, left) \<Rightarrow>
      GetSize new = GetSize v \<and> GetCapacity new = GetCapacity v \<and>
      array_m new = array_m v \<and> elems new = elems v \<and>
      GetSize left = 0 \<and> GetCapacity left = 0"
    by (simp add: SimpleVector_move_def GetSize_def GetCapacity_def elems_def Let_def)
next
  assume h: "s this = Some t \<and> s rhs = Some r \<and> this \<noteq> rhs"
  let ?t' = "t\<lparr>array_m := array_m r, size_m := size_m r, capacity_m := capacity_m r\<rparr>"
  let ?r' = "r\<lparr>array_m := [], size_m := 0, capacity_m := 0\<rparr>"
  from h have "move_assign this rhs s = Inr (s(this \<mapsto> ?t', rhs \<mapsto> ?r'))"
    by (simp add: move_assign_def deref_def bind_err_def Let_def)
  then show "\<exists>t' r'. move_assign this rhs s = Inr (s(this \<mapsto> t', rhs \<mapsto> r')) \<and>
         GetSize t' = GetSize r \<and> GetCapacity t' = GetCapacity r \<and>
         array_m t' = array_m r \<and> elems t' = elems r \<and>
         GetSize r' = 0 \<and> GetCapacity r' = 0"
    by (intro exI [of _ ?t'] exI [of _ ?r']) (simp add: GetSize_def GetCapacity_def elems_def)
next
  assume "s this = Some t"
  then show "move_assign this this s = Inr s"
    by (simp add: move_assign_def deref_def bind_err_def)
qed

theorem move_transfers_witness:
  "[0 \<mapsto> \<lparr>array_m = [Some (7::int)], size_m = 1, capacity_m = 1\<rparr>,
    1 \<mapsto> \<lparr>array_m = [Some 1, Some 2, None, None], size_m = 2, capacity_m = 4\<rparr>] (0::addr)
     = Some \<lparr>array_m = [Some 7], size_m = 1, capacity_m = 1\<rparr> \<and>
   [0 \<mapsto> \<lparr>array_m = [Some (7::int)], size_m = 1, capacity_m = 1\<rparr>,
    1 \<mapsto> \<lparr>array_m = [Some 1, Some 2, None, None], size_m = 2, capacity_m = 4\<rparr>] (1::addr)
     = Some \<lparr>array_m = [Some 1, Some 2, None, None], size_m = 2, capacity_m = 4\<rparr> \<and>
   (0::addr) \<noteq> 1 \<and>
   (\<exists>t' r'. move_assign 0 1
       [0 \<mapsto> \<lparr>array_m = [Some (7::int)], size_m = 1, capacity_m = 1\<rparr>,
        1 \<mapsto> \<lparr>array_m = [Some 1, Some 2, None, None], size_m = 2, capacity_m = 4\<rparr>]
      = Inr ([0 \<mapsto> t', 1 \<mapsto> r']) \<and>
      GetSize t' = 2 \<and> GetCapacity t' = 4 \<and> elems t' = [1, 2] \<and>
      GetSize r' = 0 \<and> GetCapacity r' = 0) \<and>
   move_assign 0 0
       [0 \<mapsto> \<lparr>array_m = [Some (7::int)], size_m = 1, capacity_m = 1\<rparr>,
        1 \<mapsto> \<lparr>array_m = [Some 1, Some 2, None, None], size_m = 2, capacity_m = 4\<rparr>]
     = Inr [0 \<mapsto> \<lparr>array_m = [Some (7::int)], size_m = 1, capacity_m = 1\<rparr>,
            1 \<mapsto> \<lparr>array_m = [Some 1, Some 2, None, None], size_m = 2, capacity_m = 4\<rparr>]"
proof -
  let ?t = "\<lparr>array_m = [Some (7::int)], size_m = 1, capacity_m = 1\<rparr>"
  let ?r = "\<lparr>array_m = [Some (1::int), Some 2, None, None], size_m = 2, capacity_m = 4\<rparr>"
  let ?s = "[0 \<mapsto> ?t, 1 \<mapsto> ?r] :: int store"
  have h: "?s 0 = Some ?t \<and> ?s 1 = Some ?r \<and> (0::addr) \<noteq> 1" by simp
  note m = move_transfers [of ?r ?s 0 ?t 1 ?r]
  from m h obtain t' r' where a: "move_assign 0 1 ?s = Inr (?s(0 \<mapsto> t', 1 \<mapsto> r'))"
    "GetSize t' = GetSize ?r" "GetCapacity t' = GetCapacity ?r" "elems t' = elems ?r"
    "GetSize r' = 0" "GetCapacity r' = 0"
    by blast
  have "?s(0 \<mapsto> t', 1 \<mapsto> r') = [0 \<mapsto> t', 1 \<mapsto> r']" by auto
  with a have "move_assign 0 1 ?s = Inr ([0 \<mapsto> t', 1 \<mapsto> r']) \<and>
      GetSize t' = 2 \<and> GetCapacity t' = 4 \<and> elems t' = [1, 2] \<and>
      GetSize r' = 0 \<and> GetCapacity r' = 0"
    by (simp add: GetSize_def GetCapacity_def elems_def)
  then have "\<exists>t' r'. move_assign 0 1 ?s = Inr ([0 \<mapsto> t', 1 \<mapsto> r']) \<and>
      GetSize t' = 2 \<and> GetCapacity t' = 4 \<and> elems t' = [1, 2] \<and>
      GetSize r' = 0 \<and> GetCapacity r' = 0"
    by blast
  moreover from m h have "move_assign 0 0 ?s = Inr ?s" by blast
  ultimately show ?thesis using h by simp
qed


subsection \<open>When a loop returns, its ranges were valid\<close>

lemma std_move_Inr:
  "std_move src first last_p dst d = Inr r \<Longrightarrow>
   first \<le> last_p \<and> (first < last_p \<longrightarrow> last_p \<le> length src \<and> d + (last_p - first) \<le> length dst)"
proof (induction src first last_p dst d rule: std_move.induct)
  case (1 src first last_p dst d)
  show ?case
  proof (cases "first = last_p")
    case True
    then show ?thesis by simp
  next
    case False
    from "1.prems" False have c: "first < last_p \<and> first < length src \<and> d < length dst"
      by (subst (asm) std_move.simps) (simp split: if_splits)
    with "1.prems" False have
      "std_move src (first + 1) last_p (dst[d := src ! first]) (d + 1) = Inr r"
      by (subst (asm) std_move.simps) simp
    with "1.IH" False c have
      "first + 1 \<le> last_p \<and> (first + 1 < last_p \<longrightarrow>
         last_p \<le> length src \<and> d + 1 + (last_p - (first + 1)) \<le> length (dst[d := src ! first]))"
      by blast
    with c show ?thesis by (cases "first + 1 < last_p") auto
  qed
qed

lemma std_move_within_Inr: "std_move_within buf first last_p d = Inr r \<Longrightarrow> first \<le> last_p"
  by (subst (asm) std_move_within.simps) (simp split: if_splits)

lemma std_move_backward_Inr: "std_move_backward buf first last_p d = Inr r \<Longrightarrow> first \<le> last_p"
  by (subst (asm) std_move_backward.simps) (simp split: if_splits)

lemma std_fill_Inr:
  "std_fill buf first last_p x = Inr r \<Longrightarrow> first \<le> last_p"
  by (subst (asm) std_fill.simps) (simp split: if_splits)

subsection \<open>The loop of Resize\<close>

lemma default_construct_ok:
  "i \<le> n \<Longrightarrow> unat n \<le> length buf \<Longrightarrow>
   \<exists>r. default_construct dflt i n buf = Inr r \<and> length r = length buf \<and>
       (\<forall>k<length buf. r ! k = (if unat i \<le> k \<and> k < unat n then Some dflt else buf ! k))"
proof (induction dflt i n buf rule: default_construct.induct)
  case (1 dflt i n buf)
  show ?case
  proof (cases "i < n")
    case False
    with "1.prems" have "i = n" by simp
    then show ?thesis by (subst default_construct.simps) auto
  next
    case True
    then have lt: "unat i < unat n" by (simp add: word_less_nat_alt)
    with unat_size_t_bound [of n] have suc: "unat (i + 1) = unat i + 1"
      by (simp add: unat_word_ariths)
    with lt have le: "i + 1 \<le> n" by (simp add: word_le_nat_alt)
    let ?b = "buf[unat i := Some dflt]"
    have pn: "placement_new buf (unat i) dflt = Inr ?b"
      using lt "1.prems" by (simp add: placement_new_def)
    have "\<exists>r. default_construct dflt (i + 1) n ?b = Inr r \<and> length r = length ?b \<and>
       (\<forall>k<length ?b. r ! k = (if unat (i + 1) \<le> k \<and> k < unat n then Some dflt else ?b ! k))"
      using True le "1.prems" by (intro "1.IH") auto
    then obtain r where r: "default_construct dflt (i + 1) n ?b = Inr r" "length r = length ?b"
      "\<forall>k<length ?b. r ! k = (if unat (i + 1) \<le> k \<and> k < unat n then Some dflt else ?b ! k)"
      by blast
    have eq: "default_construct dflt i n buf = Inr r"
      using True pn r(1) by (subst default_construct.simps) (simp add: bind_err_def)
    have "r ! k = (if unat i \<le> k \<and> k < unat n then Some dflt else buf ! k)"
      if "k < length buf" for k
      using r(3) [rule_format, of k] that suc lt by (cases "k = unat i") auto
    with eq r(2) show ?thesis by simp
  qed
qed


subsection \<open>Every member function keeps a well-formed vector well-formed\<close>

lemma well_formed_shrink:
  assumes w: "well_formed v" and le: "n \<le> size_m v"
  shows "well_formed (v\<lparr>size_m := n\<rparr>)"
proof (rule well_formedI)
  from le have n: "unat n \<le> unat (size_m v)" by (simp add: word_le_nat_alt)
  with well_formed_size_le [OF w]
  show "unat (size_m (v\<lparr>size_m := n\<rparr>)) \<le> unat (capacity_m (v\<lparr>size_m := n\<rparr>))" by simp
  show "length (array_m (v\<lparr>size_m := n\<rparr>)) = unat (capacity_m (v\<lparr>size_m := n\<rparr>))"
    using well_formed_length [OF w] by simp
  show "unat (capacity_m (v\<lparr>size_m := n\<rparr>)) < 2 ^ 63"
    using well_formed_capacity_bound [OF w] by simp
  show "array_m (v\<lparr>size_m := n\<rparr>) ! i \<noteq> None" if "i < unat (size_m (v\<lparr>size_m := n\<rparr>))" for i
    using that n well_formed_live [OF w, of i] by simp
qed

lemma Clear_well_formed: "well_formed v \<Longrightarrow> well_formed (Clear v)"
  unfolding Clear_def by (rule well_formed_shrink) simp_all

lemma PopBack_well_formed:
  assumes w: "well_formed v" and r: "PopBack b v = Inr v'" and c: "b = Debug \<or> size_m v \<noteq> 0"
  shows "well_formed v'"
proof -
  from r c have nz: "size_m v \<noteq> 0"
    by (auto simp: PopBack_def assert_def bind_err_def split: if_splits)
  then have "unat (size_m v - 1) = unat (size_m v) - 1" by (rule unat_minus_one)
  then have "size_m v - 1 \<le> size_m v" by (simp add: word_le_nat_alt)
  from well_formed_shrink [OF w this] r show ?thesis
    by (auto simp: PopBack_def assert_def bind_err_def split: if_splits)
qed

lemma PushBack_well_formed:
  assumes w: "well_formed v" and r: "PushBack x v = Inr v'"
  shows "well_formed v'"
proof (cases "size_m v = capacity_m v \<longrightarrow> unat (capacity_m v) < 2 ^ 62")
  case True
  from PushBack_ok [OF w True, of x] r show ?thesis by auto
next
  case False
  then have "PushBack x v = Inl BadAlloc"
    using well_formed_capacity_bound [OF w] by (intro PushBack_BadAlloc) auto
  with r show ?thesis by simp
qed

lemma Insert_well_formed:
  assumes w: "well_formed v" and r: "Insert pos val v = Inr (v', it)"
  shows "well_formed v'"
proof -
  let ?n = "unat (size_m v)"
  have len: "length (array_m v) = unat (capacity_m v)" by (rule well_formed_length [OF w])
  from r have p: "pos \<le> length (array_m v)"
    by (auto simp: Insert_def ptr_diff_def bind_err_def split: if_splits)
  with len well_formed_capacity_bound [OF w] have "pos < 2 ^ 63" by simp
  then have idx: "unat (of_nat pos :: size_t) = pos" by (rule unat_of_nat_pos)
  from p have pd: "ptr_diff (array_m v) pos = Inr (of_nat pos)" by (simp add: ptr_diff_def)
  from r Insert_full_no_result [of v pos val "(v', it)"] have spare: "size_m v \<noteq> capacity_m v"
    by auto
  show ?thesis
  proof (cases "pos \<le> ?n")
    case True
    from Insert_shift [OF w True spare, of val] obtain a where
      a: "\<forall>e. read_value a val = Inl e \<longrightarrow> Insert pos val v = Inl e"
         "\<forall>y. read_value a val = Inr y \<longrightarrow>
            (\<exists>v'. Insert pos val v = Inr (v', pos) \<and> well_formed v')"
      by blast
    show ?thesis
    proof (cases "read_value a val")
      case (Inl e)
      with a(1) r show ?thesis by simp
    next
      case (Inr y)
      with a(2) r show ?thesis by auto
    qed
  next
    case far: False
    from r spare pd idx obtain a where
      "std_move_backward (array_m v) pos ?n (?n + 1) = Inr a"
      by (auto simp: Insert_def bind_err_def begin_it_def end_it_def split: sum.splits)
    from std_move_backward_Inr [OF this] far show ?thesis by simp
  qed
qed

lemma Reserve_well_formed:
  assumes w: "well_formed v" and r: "Reserve n v = Inr v'"
  shows "well_formed v'"
proof (cases "capacity_m v < n")
  case True
  with r have "unat n < 2 ^ 63"
    by (auto simp: Reserve_def ArrayPtr_def bind_err_def split: if_splits)
  from Reserve_grow [OF w True this] r show ?thesis by auto
next
  case False
  with r w show ?thesis by (simp add: Reserve_def)
qed


lemma Erase_well_formed:
  assumes w: "well_formed v" and r: "Erase pos v = Inr (v', it)"
  shows "well_formed v'"
proof -
  let ?n = "unat (size_m v)"
  have len: "length (array_m v) = unat (capacity_m v)" by (rule well_formed_length [OF w])
  from r have p: "pos \<le> length (array_m v)"
    by (auto simp: Erase_def ptr_diff_def bind_err_def split: if_splits)
  with len well_formed_capacity_bound [OF w] have "pos < 2 ^ 63" by simp
  then have idx: "unat (of_nat pos :: size_t) = pos" by (rule unat_of_nat_pos)
  from p have pd: "ptr_diff (array_m v) pos = Inr (of_nat pos)" by (simp add: ptr_diff_def)
  show ?thesis
  proof (cases "pos < ?n")
    case True
    from Erase_ok [OF w True] r show ?thesis by (auto simp: begin_it_def)
  next
    case False
    show ?thesis
    proof (cases "size_m v = 0")
      case True
      have "unat (- 1 :: size_t) = 2 ^ 64 - 1"
        by (simp add: unsigned_minus_1_eq_mask mask_eq_exp_minus_1)
      with \<open>pos < 2 ^ 63\<close> idx have "(of_nat pos :: size_t) < - 1"
        by (simp add: word_less_nat_alt)
      with r True pd idx obtain a where
        "std_move_within (array_m v) (pos + 1) 0 pos = Inr a"
        by (auto simp: Erase_def bind_err_def begin_it_def end_it_def split: sum.splits)
      from std_move_within_Inr [OF this] show ?thesis by simp
    next
      case nz: False
      then have n1: "unat (size_m v - 1) = ?n - 1" by (rule unat_minus_one)
      with False idx have "\<not> (of_nat pos :: size_t) < size_m v - 1"
        by (simp add: word_less_nat_alt)
      with r pd have v': "v' = v\<lparr>size_m := size_m v - 1\<rparr>"
        by (simp add: Erase_def bind_err_def Let_def)
      from n1 have "size_m v - 1 \<le> size_m v" by (simp add: word_le_nat_alt)
      from well_formed_shrink [OF w this] v' show ?thesis by simp
    qed
  qed
qed

lemma Resize_well_formed:
  assumes w: "well_formed v" and r: "Resize dflt n v = Inr v'"
  shows "well_formed v'"
proof -
  let ?m = "unat (size_m v)"
  let ?arr = "array_m v"
  have len: "length ?arr = unat (capacity_m v)" by (rule well_formed_length [OF w])
  consider (grow) "capacity_m v < n" | (fill) "\<not> capacity_m v < n" "size_m v < n"
    | (shrink) "\<not> capacity_m v < n" "\<not> size_m v < n"
    by blast
  then show ?thesis
  proof cases
    case grow
    with r have alloc: "unat n < 2 ^ 63"
      by (auto simp: Resize_def ArrayPtr_def bind_err_def split: if_splits)
    have al: "ArrayPtr n = Inr (replicate (unat n) (None :: 'a option))"
      using alloc by (rule ArrayPtr_ok)
    from grow have cn: "unat (capacity_m v) < unat n" by (simp add: word_less_nat_alt)
    with well_formed_size_le [OF w] have mn: "?m \<le> unat n" by simp
    then have le: "size_m v \<le> n" by (simp add: word_le_nat_alt)
    from relocate [OF w mn] obtain a where
      a: "std_move ?arr 0 ?m (replicate (unat n) None) 0 = Inr a" "length a = unat n"
         "\<forall>i<?m. a ! i = ?arr ! i"
      by auto
    from default_construct_ok [OF le, of a dflt] a(2) obtain c where
      c: "default_construct dflt (size_m v) n a = Inr c" "length c = unat n"
         "\<forall>k<unat n. c ! k = (if ?m \<le> k \<and> k < unat n then Some dflt else a ! k)"
      by auto
    from r grow al a(1) c(1) have v': "v' = v\<lparr>array_m := c, capacity_m := n, size_m := n\<rparr>"
      by (simp add: Resize_def bind_err_def begin_it_def end_it_def)
    show ?thesis
    proof (rule well_formedI)
      show "unat (size_m v') \<le> unat (capacity_m v')" using v' by simp
      show "length (array_m v') = unat (capacity_m v')" using v' c(2) by simp
      show "unat (capacity_m v') < 2 ^ 63" using v' alloc by simp
      show "array_m v' ! i \<noteq> None" if "i < unat (size_m v')" for i
      proof (cases "i < ?m")
        case True
        with c(3) a(3) that v' well_formed_live [OF w True] show ?thesis by simp
      next
        case False
        with c(3) that v' show ?thesis by simp
      qed
    qed
  next
    case fill
    then have nc: "unat n \<le> length ?arr" by (simp add: len word_le_nat_alt not_less)
    from fill have le: "size_m v \<le> n" by simp
    from default_construct_ok [OF le nc, of dflt] obtain c where
      c: "default_construct dflt (size_m v) n ?arr = Inr c" "length c = length ?arr"
         "\<forall>k<length ?arr. c ! k = (if ?m \<le> k \<and> k < unat n then Some dflt else ?arr ! k)"
      by auto
    from r fill c(1) have v': "v' = v\<lparr>array_m := c, size_m := n\<rparr>"
      by (simp add: Resize_def bind_err_def)
    show ?thesis
    proof (rule well_formedI)
      show "unat (size_m v') \<le> unat (capacity_m v')" using v' nc len by simp
      show "length (array_m v') = unat (capacity_m v')" using v' c(2) len by simp
      show "unat (capacity_m v') < 2 ^ 63" using v' well_formed_capacity_bound [OF w] by simp
      show "array_m v' ! i \<noteq> None" if "i < unat (size_m v')" for i
      proof (cases "i < ?m")
        case True
        with c(3) nc that v' well_formed_live [OF w True] show ?thesis by simp
      next
        case False
        with c(3) nc that v' show ?thesis by simp
      qed
    qed
  next
    case shrink
    with r have v': "v' = v\<lparr>size_m := n\<rparr>" by (simp add: Resize_def bind_err_def)
    from shrink have "n \<le> size_m v" by simp
    from well_formed_shrink [OF w this] v' show ?thesis by simp
  qed
qed


subsection \<open>Every constructor returns a well-formed vector\<close>

lemma SimpleVector_default_well_formed: "well_formed (SimpleVector_default ())"
  by (simp add: SimpleVector_default_def well_formed_def)

lemma SimpleVector_reserve_well_formed:
  "SimpleVector_reserve n = Inr v \<Longrightarrow> well_formed v"
  by (auto simp: SimpleVector_reserve_def ArrayPtr_def bind_err_def well_formed_def
      split: if_splits)

lemma filled_well_formed:
  assumes al: "ArrayPtr n = Inr a" and f: "std_fill a 0 (unat n) x = Inr c"
  shows "well_formed \<lparr>array_m = c, size_m = n, capacity_m = n\<rparr>"
proof -
  from al have b: "unat n < 2 ^ 63" and a: "a = replicate (unat n) None"
    by (auto simp: ArrayPtr_def split: if_splits)
  from std_fill_ok [of 0 "unat n" a x] a f have
    c: "length c = unat n" "\<forall>k<unat n. c ! k = Some x"
    by auto
  show ?thesis
    by (rule well_formedI) (use b c in simp_all)
qed

lemma SimpleVector_size_well_formed:
  "SimpleVector_size dflt n = Inr v \<Longrightarrow> well_formed v"
  by (auto simp: SimpleVector_size_def bind_err_def Let_def begin_it_def end_it_def
      split: sum.splits dest: filled_well_formed)

lemma SimpleVector_fill_well_formed:
  "SimpleVector_fill n x = Inr v \<Longrightarrow> well_formed v"
  by (auto simp: SimpleVector_fill_def bind_err_def Let_def begin_it_def end_it_def
      split: sum.splits dest: filled_well_formed)

lemma SimpleVector_init_well_formed:
  assumes r: "SimpleVector_init init = Inr v"
  shows "well_formed v"
proof -
  let ?n = "of_nat (length init) :: size_t"
  from r obtain a c where al: "ArrayPtr ?n = Inr a"
    and m: "std_move (map Some init) 0 (length init) a 0 = Inr c"
    and v: "v = \<lparr>array_m = c, size_m = ?n, capacity_m = ?n\<rparr>"
    by (auto simp: SimpleVector_init_def std_copy_def bind_err_def Let_def begin_it_def
        split: sum.splits)
  from al have b: "unat ?n < 2 ^ 63" and a: "a = replicate (unat ?n) None"
    by (auto simp: ArrayPtr_def split: if_splits)
  have fits: "length init \<le> unat ?n"
    using std_move_Inr [OF m] a by (cases "length init = 0") auto
  have "unat ?n \<le> length init" by (simp add: unat_of_nat)
  with fits have n: "unat ?n = length init" by simp
  from std_move_ok [of 0 "length init" "map Some init" 0 a] a n m have
    c: "length c = length init" "\<forall>j<length init. c ! j = map Some init ! j"
    by auto
  show ?thesis
    unfolding v by (rule well_formedI) (use b c n in simp_all)
qed

lemma SimpleVector_copy_well_formed:
  "well_formed other \<Longrightarrow> SimpleVector_copy other = Inr c \<Longrightarrow> well_formed c"
  using SimpleVector_copy_ok [of other] by auto

lemma SimpleVector_move_well_formed:
  "well_formed other \<Longrightarrow> SimpleVector_move other = (new, left) \<Longrightarrow>
   well_formed new \<and> well_formed left"
  by (auto simp: SimpleVector_move_def Let_def well_formed_def)


subsection \<open>Every call keeps the store well-formed\<close>

lemma well_formed_fields:
  "array_m u = array_m v \<Longrightarrow> size_m u = size_m v \<Longrightarrow> capacity_m u = capacity_m v \<Longrightarrow>
   well_formed u = well_formed v"
  by (simp add: well_formed_def)

lemma store_okD: "store_ok s \<Longrightarrow> s a = Some v \<Longrightarrow> well_formed v"
  by (auto simp: store_ok_def)

lemma store_ok_upd: "store_ok s \<Longrightarrow> well_formed v \<Longrightarrow> store_ok (s(a \<mapsto> v))"
  by (auto simp: store_ok_def)

lemma no_objects_ok: "store_ok no_objects"
  by (simp add: store_ok_def no_objects_def)

lemma construct_ok:
  "store_ok s \<Longrightarrow> construct a r s = Inr s' \<Longrightarrow> (\<And>v. r = Inr v \<Longrightarrow> well_formed v) \<Longrightarrow>
   store_ok s'"
  by (auto simp: construct_def bind_err_def split: option.splits sum.splits intro: store_ok_upd)

lemma on_object_ok:
  "store_ok s \<Longrightarrow> on_object a f s = Inr s' \<Longrightarrow>
   (\<And>v v'. well_formed v \<Longrightarrow> f v = Inr v' \<Longrightarrow> well_formed v') \<Longrightarrow> store_ok s'"
  by (auto simp: on_object_def deref_def bind_err_def split: option.splits sum.splits
      intro!: store_ok_upd dest: store_okD)

lemma swap_ok:
  assumes ok: "store_ok s" and r: "swap this other s = Inr s'"
  shows "store_ok s'"
proof -
  from r obtain t u where t: "s this = Some t" and u: "s other = Some u"
    by (auto simp: swap_def deref_def bind_err_def split: option.splits)
  have wt: "well_formed t" and wu: "well_formed u"
    using ok t u by (auto dest: store_okD)
  show ?thesis
  proof (cases "this = other")
    case True
    with r t have "s' = s(this \<mapsto> t)"
      by (simp add: swap_def deref_def bind_err_def std_swap_def Let_def)
    with ok wt show ?thesis by (simp add: store_ok_upd)
  next
    case False
    let ?t' = "t\<lparr>array_m := array_m u, size_m := size_m u, capacity_m := capacity_m u\<rparr>"
    let ?u' = "u\<lparr>array_m := array_m t, size_m := size_m t, capacity_m := capacity_m t\<rparr>"
    from r t u False have "s' = s(this \<mapsto> ?t', other \<mapsto> ?u')"
      by (auto simp: swap_def deref_def bind_err_def std_swap_def Let_def fun_upd_twist)
    moreover have "well_formed ?t'" using wu by (simp add: well_formed_fields [of ?t' u])
    moreover have "well_formed ?u'" using wt by (simp add: well_formed_fields [of ?u' t])
    ultimately show ?thesis using ok by (simp add: store_ok_upd)
  qed
qed

lemma copy_assign_ok:
  "store_ok s \<Longrightarrow> copy_assign this rhs s = Inr s' \<Longrightarrow> store_ok s'"
  by (auto simp: copy_assign_def deref_def bind_err_def
      split: option.splits sum.splits if_splits
      intro!: store_ok_upd dest: store_okD SimpleVector_copy_well_formed)

lemma move_assign_ok:
  assumes ok: "store_ok s" and r: "move_assign this rhs s = Inr s'"
  shows "store_ok s'"
proof -
  from r obtain t u where t: "s this = Some t" and u: "s rhs = Some u"
    by (auto simp: move_assign_def deref_def bind_err_def split: option.splits)
  have wu: "well_formed u" using ok u by (rule store_okD)
  show ?thesis
  proof (cases "this = rhs")
    case True
    with r t ok show ?thesis by (simp add: move_assign_def deref_def bind_err_def)
  next
    case False
    let ?t' = "t\<lparr>array_m := array_m u, size_m := size_m u, capacity_m := capacity_m u\<rparr>"
    let ?u' = "u\<lparr>array_m := [], size_m := 0, capacity_m := 0\<rparr>"
    from r t u False have "s' = s(this \<mapsto> ?t', rhs \<mapsto> ?u')"
      by (simp add: move_assign_def deref_def bind_err_def Let_def)
    moreover have "well_formed ?t'" using wu by (simp add: well_formed_fields [of ?t' u])
    moreover have "well_formed ?u'" by (simp add: well_formed_def)
    ultimately show ?thesis using ok by (simp add: store_ok_upd)
  qed
qed

lemma exec_ok:
  assumes ok: "store_ok s" and r: "exec b dflt c s = Inr s'"
    and pre: "b = Debug \<or> pop_in_contract c s"
  shows "store_ok s'"
proof (cases c)
  case (New a)
  with ok r show ?thesis
    by (auto elim!: construct_ok simp: SimpleVector_default_well_formed)
next
  case (NewSize a n)
  with ok r show ?thesis
    by (auto elim!: construct_ok dest: SimpleVector_size_well_formed)
next
  case (NewReserve a n)
  with ok r show ?thesis
    by (auto elim!: construct_ok dest: SimpleVector_reserve_well_formed)
next
  case (NewFill a n x)
  with ok r show ?thesis
    by (auto elim!: construct_ok dest: SimpleVector_fill_well_formed)
next
  case (NewInit a xs)
  with ok r show ?thesis
    by (auto elim!: construct_ok dest: SimpleVector_init_well_formed)
next
  case (NewCopy a other)
  with r obtain v where v: "s other = Some v" and c: "construct a (SimpleVector_copy v) s = Inr s'"
    by (auto simp: deref_def bind_err_def split: option.splits)
  from ok v have "well_formed v" by (rule store_okD)
  with ok c show ?thesis
    by (auto elim!: construct_ok dest: SimpleVector_copy_well_formed)
next
  case (NewMove a other)
  with r obtain v new left where v: "s other = Some v"
    and m: "SimpleVector_move v = (new, left)"
    and c: "construct a (Inr new) (s(other \<mapsto> left)) = Inr s'"
    by (auto simp: deref_def bind_err_def split: option.splits prod.splits)
  from ok v have "well_formed v" by (rule store_okD)
  from SimpleVector_move_well_formed [OF this m] have "well_formed new" "well_formed left"
    by simp_all
  with ok c show ?thesis
    by (auto elim!: construct_ok [rotated] intro: store_ok_upd)
next
  case (AssignCopy a rhs)
  with ok r show ?thesis by (auto elim: copy_assign_ok)
next
  case (AssignMove a rhs)
  with ok r show ?thesis by (auto elim: move_assign_ok)
next
  case (CallPushBack a x)
  with ok r show ?thesis
    by (auto elim!: on_object_ok dest: PushBack_well_formed)
next
  case (CallPopBack a)
  with r obtain v where v: "s a = Some v"
    by (auto simp: on_object_def deref_def bind_err_def split: option.splits)
  with pre CallPopBack have "b = Debug \<or> size_m v \<noteq> 0" by (auto simp: IsEmpty_def)
  with r CallPopBack v ok show ?thesis
    by (auto simp: on_object_def deref_def bind_err_def split: sum.splits
        intro!: store_ok_upd dest: store_okD PopBack_well_formed)
next
  case (CallInsert a pos x)
  with ok r show ?thesis
    by (auto elim!: on_object_ok simp: bind_err_def split: sum.splits dest: Insert_well_formed)
next
  case (CallErase a pos)
  with ok r show ?thesis
    by (auto elim!: on_object_ok simp: bind_err_def split: sum.splits dest: Erase_well_formed)
next
  case (CallSwap a other)
  with ok r show ?thesis by (auto elim: swap_ok)
next
  case (CallReserve a n)
  with ok r show ?thesis
    by (auto elim!: on_object_ok dest: Reserve_well_formed)
next
  case (CallClear a)
  with ok r show ?thesis
    by (auto elim!: on_object_ok intro: Clear_well_formed)
next
  case (CallResize a n)
  with ok r show ?thesis
    by (auto elim!: on_object_ok dest: Resize_well_formed)
qed

lemma run_ok:
  "store_ok s \<Longrightarrow> run b dflt cs s = Inr s' \<Longrightarrow> b = Debug \<or> pops_in_contract b dflt cs s \<Longrightarrow>
   store_ok s'"
proof (induction cs arbitrary: s)
  case Nil
  then show ?case by simp
next
  case (Cons c cs)
  from Cons.prems(2) obtain s1 where s1: "exec b dflt c s = Inr s1" "run b dflt cs s1 = Inr s'"
    by (auto simp: bind_err_def split: sum.splits)
  from Cons.prems(3) s1(1) have pre: "b = Debug \<or> pop_in_contract c s"
    and rest: "b = Debug \<or> pops_in_contract b dflt cs s1"
    by auto
  from exec_ok [OF Cons.prems(1) s1(1) pre] have "store_ok s1" .
  from Cons.IH [OF this s1(2) rest] show ?case .
qed


subsection \<open>The invariant on reachable vectors\<close>

text \<open>
  Claim C5 says that \<open>size \<le> capacity\<close> holds for every vector that a program reaches from
  the constructors by calls of the public operations. In a release build it does not:
  \<^verbatim>\<open>PopBack\<close> on a default-constructed vector passes the disabled assertion and decrements
  the size \<open>0\<close> to \<open>- 1\<close>, which is \<open>2^64 - 1\<close> as a \<^verbatim>\<open>size_t\<close>, above the capacity \<open>0\<close>.
\<close>

theorem invariant_Release_counterexample:
  "run Release (0::int) [New 0, CallPopBack 0] no_objects =
     Inr (no_objects(0 \<mapsto> \<lparr>array_m = [], size_m = - 1, capacity_m = 0\<rparr>)) \<and>
   \<not> GetSize \<lparr>array_m = [] :: int ArrayPtr, size_m = - 1, capacity_m = 0\<rparr>
       \<le> GetCapacity \<lparr>array_m = [] :: int ArrayPtr, size_m = - 1, capacity_m = 0\<rparr>"
  by (simp add: bind_err_def construct_def on_object_def deref_def no_objects_def
      SimpleVector_default_def PopBack_def assert_def GetSize_def GetCapacity_def)

text \<open>
  Claim C5, amended. The invariant \<open>size \<le> capacity\<close> holds for every vector that a program
  reaches from the constructors by calls of the public operations (construction in every
  form, copy and move assignment, \<^verbatim>\<open>PushBack\<close>, \<^verbatim>\<open>PopBack\<close>, \<^verbatim>\<open>Insert\<close>, \<^verbatim>\<open>Erase\<close>, \<^verbatim>\<open>swap\<close>,
  \<^verbatim>\<open>Reserve\<close>, \<^verbatim>\<open>Clear\<close>, \<^verbatim>\<open>Resize\<close>), provided the build is a debug build, where \<^verbatim>\<open>PopBack\<close> on
  an empty vector stops the program at its assertion, or no \<^verbatim>\<open>PopBack\<close> of the program
  meets an empty vector.
\<close>

theorem invariant_reachable:
  assumes "run b dflt cs no_objects = Inr s"
    and "b = Debug \<or> pops_in_contract b dflt cs no_objects"
    and "s a = Some v"
  shows "GetSize v \<le> GetCapacity v"
proof -
  from run_ok [OF no_objects_ok assms(1,2)] have "store_ok s" .
  from store_okD [OF this assms(3)] show ?thesis
    by (simp add: well_formed_def GetSize_def GetCapacity_def)
qed

theorem invariant_reachable_witness:
  "run Release (0::int) [New 0, CallPushBack 0 7, CallPushBack 0 8, CallPopBack 0] no_objects =
     Inr (no_objects(0 \<mapsto> \<lparr>array_m = [Some 7, Some 8], size_m = 1, capacity_m = 2\<rparr>)) \<and>
   pops_in_contract Release (0::int) [New 0, CallPushBack 0 7, CallPushBack 0 8, CallPopBack 0]
     no_objects \<and>
   (no_objects(0 \<mapsto> \<lparr>array_m = [Some (7::int), Some 8], size_m = 1, capacity_m = 2\<rparr>)) 0 =
     Some \<lparr>array_m = [Some 7, Some 8], size_m = 1, capacity_m = 2\<rparr> \<and>
   GetSize \<lparr>array_m = [Some (7::int), Some 8], size_m = 1, capacity_m = 2\<rparr>
     \<le> GetCapacity \<lparr>array_m = [Some (7::int), Some 8], size_m = 1, capacity_m = 2\<rparr>"
proof -
  let ?cs = "[New 0, CallPushBack 0 7, CallPushBack 0 8, CallPopBack 0] :: int call list"
  let ?v = "\<lparr>array_m = [Some (7::int), Some 8], size_m = 1, capacity_m = 2\<rparr>"
  have p1: "PushBack (7::int) \<lparr>array_m = [], size_m = 0, capacity_m = 0\<rparr> =
      Inr \<lparr>array_m = [Some 7], size_m = 1, capacity_m = 1\<rparr>"
    by (simp add: PushBack_def bind_err_def ArrayPtr_def std_move.simps
        placement_new_def begin_it_def end_it_def)
  have p2: "PushBack (8::int) \<lparr>array_m = [Some 7], size_m = 1, capacity_m = 1\<rparr> =
      Inr \<lparr>array_m = [Some 7, Some 8], size_m = 2, capacity_m = 2\<rparr>"
    apply (simp add: PushBack_def bind_err_def ArrayPtr_def std_move.simps
        placement_new_def begin_it_def end_it_def)
    apply (simp add: eval_nat_numeral)
    done
  have p3: "PopBack Release \<lparr>array_m = [Some (7::int), Some 8], size_m = 2, capacity_m = 2\<rparr> =
      Inr ?v"
    by (simp add: PopBack_def assert_def bind_err_def)
  have r: "run Release 0 ?cs no_objects = Inr (no_objects(0 \<mapsto> ?v))"
    by (simp add: p1 p2 p3 bind_err_def construct_def on_object_def deref_def no_objects_def
        SimpleVector_default_def)
  have c: "Release = Debug \<or> pops_in_contract Release 0 ?cs no_objects"
    by (simp add: p1 p2 p3 bind_err_def construct_def on_object_def deref_def no_objects_def
        SimpleVector_default_def IsEmpty_def)
  have a: "(no_objects(0 \<mapsto> ?v)) 0 = Some ?v" by simp
  from invariant_reachable [OF r c a] r c a show ?thesis by simp
qed

end
